theory Spec2Isabelle
  imports Main "HOL-Library.Product_Lexorder"
begin

section \<open>Python values\<close>

text \<open>
  A Python \<open>str\<close> is a sequence of Unicode code points, and the code under study looks at
  single code points (\<open>t[-1] in trailing\<close>, \<open>str.strip\<close>), so a string is modelled as the
  list of its code points. Only text that UTF-8 can encode is meant (no lone surrogates):
  everything the programs write goes through files opened with \<open>encoding="utf-8"\<close>.
\<close>

type_synonym pystr = "nat list"

definition ascii :: "string \<Rightarrow> pystr" where
  "ascii s = map of_char s"

text \<open>
  \<open>str.isspace\<close> for one code point. \<open>str.strip\<close>, \<open>str.rstrip\<close> and the regular
  expression class \<open>\s\<close> on \<open>str\<close> patterns all use this set (CPython's
  \<open>Py_UNICODE_ISSPACE\<close>).
\<close>

definition isspace :: "nat \<Rightarrow> bool" where
  "isspace c \<longleftrightarrow>
     (9 \<le> c \<and> c \<le> 13) \<or> (28 \<le> c \<and> c \<le> 32) \<or> c = 133 \<or> c = 160 \<or> c = 5760 \<or>
     (8192 \<le> c \<and> c \<le> 8202) \<or> c = 8232 \<or> c = 8233 \<or> c = 8239 \<or> c = 8287 \<or>
     c = 12288"

definition lstrip :: "pystr \<Rightarrow> pystr" where
  "lstrip s = dropWhile isspace s"

definition rstrip :: "pystr \<Rightarrow> pystr" where
  "rstrip s = rev (dropWhile isspace (rev s))"

definition strip :: "pystr \<Rightarrow> pystr" where
  "strip s = rstrip (lstrip s)"

section \<open>Text normaliser (main.py)\<close>

text \<open>
  The literal \<open>trailing\<close> of \<open>strip_trailing_punc\<close>, code point by code point, in the
  order of the source (the escape \<open>\"\<close> is the one character U+0022; U+300B occurs twice).
\<close>

definition trailing :: "nat list" where
  "trailing =
     [65292, 12290, 65281, 65311, 65307, 65306, 12289, 44, 46, 33, 63, 59, 58, 126, 8230,
      8212, 45, 183, 34, 39, 65289, 41, 12305, 93, 12299, 62, 12299]"

text \<open>
  The loop \<open>while t and t[-1] in trailing: t = t[:-1].rstrip()\<close>.
\<close>

function strip_loop :: "pystr \<Rightarrow> pystr" where
  "strip_loop t =
     (if t \<noteq> [] \<and> last t \<in> set trailing then strip_loop (rstrip (butlast t)) else t)"
  by pat_completeness auto
termination
proof (relation "measure length")
  show "wf (measure length)" by simp
next
  fix t :: pystr
  assume "t \<noteq> [] \<and> last t \<in> set trailing"
  then have "length (butlast t) < length t" by simp
  moreover have "length (rstrip (butlast t)) \<le> length (butlast t)"
    using length_dropWhile_le [of isspace "rev (butlast t)"] by (simp add: rstrip_def)
  ultimately show "(rstrip (butlast t), t) \<in> measure length" by simp
qed

declare strip_loop.simps [simp del]

definition strip_trailing_punc :: "pystr \<Rightarrow> pystr" where
  "strip_trailing_punc text = (if text = [] then text else strip_loop (rstrip text))"

text \<open>
  The strings the loop can stop at: empty, or ending in a character that is neither white
  space nor trailing punctuation.
\<close>

definition settled :: "pystr \<Rightarrow> bool" where
  "settled t \<longleftrightarrow> t = [] \<or> (\<not> isspace (last t) \<and> last t \<notin> set trailing)"

section \<open>Timestamp formatter (main.py)\<close>

text \<open>\<open>str(n)\<close> for a natural number: its decimal digits, most significant first.\<close>

fun digits :: "nat \<Rightarrow> pystr" where
  "digits n = (if n < 10 then [48 + n] else digits (n div 10) @ [48 + n mod 10])"

declare digits.simps [simp del]

definition py_str_int :: "int \<Rightarrow> pystr" where
  "py_str_int i = (if i < 0 then 45 # digits (nat (- i)) else digits (nat i))"

definition zero_pad :: "nat \<Rightarrow> pystr \<Rightarrow> pystr" where
  "zero_pad w ds = replicate (w - length ds) 48 @ ds"

text \<open>
  The format specification \<open>0wd\<close> of an f-string: decimal digits, filled with zeros
  between the sign and the digits up to the width \<open>w\<close>; longer numbers are not cut.
\<close>

definition fmt_d :: "nat \<Rightarrow> int \<Rightarrow> pystr" where
  "fmt_d w i =
     (if i < 0 then 45 # zero_pad (w - 1) (digits (nat (- i))) else zero_pad w (digits (nat i)))"

definition srt_time :: "int \<Rightarrow> pystr" where
  "srt_time ms0 =
     (let ms = (if ms0 < 0 then 0 else ms0);
          hh = ms div 3600000;
          mm = (ms mod 3600000) div 60000;
          ss = (ms mod 60000) div 1000;
          mmm = ms mod 1000
      in fmt_d 2 hh @ [58] @ fmt_d 2 mm @ [58] @ fmt_d 2 ss @ [44] @ fmt_d 3 mmm)"

text \<open>Reading a field back: the number a string of decimal digits denotes.\<close>

definition isdigit :: "nat \<Rightarrow> bool" where
  "isdigit c \<longleftrightarrow> 48 \<le> c \<and> c \<le> 57"

definition dec_value :: "pystr \<Rightarrow> nat" where
  "dec_value ds = foldl (\<lambda>a c. 10 * a + (c - 48)) 0 ds"

section \<open>Dynamic values and exceptions\<close>

text \<open>
  The recognizer result and the decoded reply of the proofreading service are untyped
  Python data. \<open>PFloat m e\<close> is the finite float \<open>m * 2 ^ e\<close>; dictionaries have string keys
  and are association lists in which the first binding of a key is the live one.
\<close>

datatype pyval =
    PNone
  | PBool bool
  | PInt int
  | PFloat int int
  | PStr pystr
  | PList "pyval list"
  | PDict "(pystr \<times> pyval) list"

text \<open>
  The exceptions that can leave the modelled functions. \<open>UnexpectedFormat\<close> and
  \<open>NoSentenceInfo\<close> are the two \<open>RuntimeError\<close>s raised by \<open>funasr_to_segments\<close>.
  \<open>Unmodelled\<close> marks a library call whose result is not modelled (\<open>int\<close> of a \<open>str\<close>, the
  text an f-string gives a float or a container): the model says nothing about the run.
\<close>

datatype error =
    UnexpectedFormat
  | NoSentenceInfo
  | TypeError
  | AttributeError
  | KeyError
  | FileNotFoundError
  | Unmodelled

fun truthy :: "pyval \<Rightarrow> bool" where
  "truthy PNone = False"
| "truthy (PBool b) = b"
| "truthy (PInt n) = (n \<noteq> 0)"
| "truthy (PFloat m e) = (m \<noteq> 0)"
| "truthy (PStr s) = (s \<noteq> [])"
| "truthy (PList xs) = (xs \<noteq> [])"
| "truthy (PDict kvs) = (kvs \<noteq> [])"

definition dict_get :: "(pystr \<times> pyval) list \<Rightarrow> pystr \<Rightarrow> pyval \<Rightarrow> pyval" where
  "dict_get d k dflt = (case map_of d k of None \<Rightarrow> dflt | Some v \<Rightarrow> v)"

text \<open>What a \<open>for\<close> loop iterates over: the elements of a list, the characters of a string,
  the keys of a dictionary; other values are not iterable.\<close>

fun py_iter :: "pyval \<Rightarrow> error + pyval list" where
  "py_iter (PList xs) = Inr xs"
| "py_iter (PStr s) = Inr (map (\<lambda>c. PStr [c]) s)"
| "py_iter (PDict kvs) = Inr (map PStr (remdups (map fst kvs)))"
| "py_iter _ = Inl TypeError"

text \<open>\<open>int(v)\<close>: a float is truncated towards zero.\<close>

fun py_int :: "pyval \<Rightarrow> error + int" where
  "py_int (PInt n) = Inr n"
| "py_int (PBool b) = Inr (if b then 1 else 0)"
| "py_int (PFloat m e) =
     Inr (if 0 \<le> e then m * 2 ^ nat e
          else if 0 \<le> m then m div 2 ^ nat (- e)
          else - ((- m) div 2 ^ nat (- e)))"
| "py_int (PStr s) = Inl Unmodelled"
| "py_int _ = Inl TypeError"

section \<open>Segment builder (main.py)\<close>

text \<open>\<open>re.sub(r"\s+", " ", s)\<close>: every maximal run of white space becomes one space.\<close>

function collapse_ws :: "pystr \<Rightarrow> pystr" where
  "collapse_ws [] = []"
| "collapse_ws (c # cs) =
     (if isspace c then 32 # collapse_ws (dropWhile isspace cs) else c # collapse_ws cs)"
  by pat_completeness auto
termination
  by (relation "measure length") (auto simp: length_dropWhile_le less_Suc_eq_le)

text \<open>\<open>norm_text\<close> applied to a dynamic value: \<open>(s or "")\<close> replaces every falsy value by the
  empty string; a truthy value that is not a string has no \<open>strip\<close>.\<close>

fun norm_text :: "pyval \<Rightarrow> error + pystr" where
  "norm_text (PStr s) = Inr (collapse_ws (strip s))"
| "norm_text v = (if truthy v then Inl AttributeError else Inr [])"

record segment =
  start_ms :: int
  end_ms :: int
  "text" :: pystr

text \<open>
  The first loop of \<open>funasr_to_segments\<close>: one segment for each sentence record with a
  non-empty text, with the three repairs of its times; entries that are not dictionaries
  and records whose text is empty are skipped. An exception ends the loop.
\<close>

fun collect :: "int \<Rightarrow> pyval list \<Rightarrow> error + segment list" where
  "collect audio_ms [] = Inr []"
| "collect audio_ms (PDict d # rest) =
     (case norm_text (dict_get d (ascii ''text'') (PStr [])) of
        Inl e \<Rightarrow> Inl e
      | Inr nt \<Rightarrow>
          let txt = strip_trailing_punc nt in
          if txt = [] then collect audio_ms rest
          else
            (case py_int (dict_get d (ascii ''start'') (PInt 0)) of
               Inl e \<Rightarrow> Inl e
             | Inr st0 \<Rightarrow>
                 (case py_int (dict_get d (ascii ''end'') (PInt 0)) of
                    Inl e \<Rightarrow> Inl e
                  | Inr ed0 \<Rightarrow>
                      let ed1 = (if ed0 \<le> st0 then st0 + 400 else ed0);
                          st = (if st0 < 0 then 0 else st0);
                          ed = (if ed1 > audio_ms then audio_ms else ed1)
                      in (case collect audio_ms rest of
                            Inl e \<Rightarrow> Inl e
                          | Inr segs \<Rightarrow> Inr (\<lparr>start_ms = st, end_ms = ed, text = txt\<rparr> # segs)))))"
| "collect audio_ms (v # rest) = collect audio_ms rest"

text \<open>The second loop: the left-to-right sweep, \<open>last_end\<close> being the end of the cue before.\<close>

fun sweep :: "int \<Rightarrow> int \<Rightarrow> segment list \<Rightarrow> segment list" where
  "sweep audio_ms last_end [] = []"
| "sweep audio_ms last_end (seg # rest) =
     (let st = (if start_ms seg < last_end then last_end else start_ms seg);
          ed = (if end_ms seg \<le> st then min (st + 400) audio_ms else end_ms seg)
      in seg\<lparr>start_ms := st, end_ms := ed\<rparr> # sweep audio_ms ed rest)"

text \<open>The last statement: the final cue is pulled to the end of the audio.\<close>

definition extend_last :: "int \<Rightarrow> segment list \<Rightarrow> segment list" where
  "extend_last audio_ms fixed =
     (if fixed \<noteq> [] \<and> audio_ms - end_ms (last fixed) \<ge> 800
      then butlast fixed @ [(last fixed)\<lparr>end_ms := audio_ms\<rparr>]
      else fixed)"

text \<open>The cues as they stand after the sort and the sweep, before the last statement.\<close>

definition swept :: "pyval \<Rightarrow> int \<Rightarrow> error + segment list" where
  "swept res audio_ms =
     (case res of
        PList (PDict r0 # others) \<Rightarrow>
          (let sentences = dict_get r0 (ascii ''sentence_info'') PNone in
           if \<not> truthy sentences then Inl NoSentenceInfo
           else
             (case py_iter sentences of
                Inl e \<Rightarrow> Inl e
              | Inr ss \<Rightarrow>
                  (case collect audio_ms ss of
                     Inl e \<Rightarrow> Inl e
                   | Inr segs \<Rightarrow>
                       Inr (sweep audio_ms 0 (sort_key (\<lambda>x. (start_ms x, end_ms x)) segs)))))
      | _ \<Rightarrow> Inl UnexpectedFormat)"

text \<open>
  \<open>funasr_to_segments\<close>. The second argument is \<open>audio_ms\<close>, the value of
  \<open>int(round(audio_dur_sec * 1000))\<close>: the float arithmetic is left to the caller.
\<close>

definition funasr_to_segments :: "pyval \<Rightarrow> int \<Rightarrow> error + segment list" where
  "funasr_to_segments res audio_ms =
     (case swept res audio_ms of Inl e \<Rightarrow> Inl e | Inr fixed \<Rightarrow> Inr (extend_last audio_ms fixed))"

text \<open>
  Cues that do not overlap: each starts at or after the end of the cue before it, the first
  at or after \<open>lo\<close>.
\<close>

fun no_overlap :: "int \<Rightarrow> segment list \<Rightarrow> bool" where
  "no_overlap lo [] = True"
| "no_overlap lo (c # cs) = (lo \<le> start_ms c \<and> no_overlap (end_ms c) cs)"

text \<open>The sentence-mode scenario of the specification: two sentences, the first ending in
  an ideographic full stop.\<close>

definition scenario_res :: pyval where
  "scenario_res =
     PList [PDict [(ascii ''sentence_info'',
       PList [PDict [(ascii ''text'', PStr [20320, 22909, 12290]),
                     (ascii ''start'', PInt 0), (ascii ''end'', PInt 500)],
              PDict [(ascii ''text'', PStr [20877, 35265]),
                     (ascii ''start'', PInt 500), (ascii ''end'', PInt 900)]])]]"

section \<open>Correction merger (optimize.py)\<close>

text \<open>
  A parsed cue is the tuple \<open>(index, timestamp, original, corrected)\<close>. The first three are
  strings read from the subtitle file; the fourth is whatever the merge puts there, which
  for a reply of unexpected shape need not be a string.
\<close>

type_synonym subtitle = "pystr \<times> pystr \<times> pystr \<times> pyval"

text \<open>\<open>v[k]\<close> for a string key \<open>k\<close>: only a dictionary can be subscripted by a string.\<close>

fun py_getitem :: "pyval \<Rightarrow> pystr \<Rightarrow> error + pyval" where
  "py_getitem (PDict d) k = (case map_of d k of None \<Rightarrow> Inl KeyError | Some v \<Rightarrow> Inr v)"
| "py_getitem v k = Inl TypeError"

text \<open>Lists and dictionaries cannot be dictionary keys.\<close>

fun hashable :: "pyval \<Rightarrow> bool" where
  "hashable (PList xs) = False"
| "hashable (PDict d) = False"
| "hashable v = True"

text \<open>
  The comprehension \<open>{c['index']: c for c in corrections}\<close>, record by record: a later
  record replaces an earlier one with the same key. The map is only ever asked for string
  keys, and a string equals no key of another type.
\<close>

fun correction_map :: "pyval list \<Rightarrow> (pyval \<rightharpoonup> pyval) \<Rightarrow> error + (pyval \<rightharpoonup> pyval)" where
  "correction_map [] m = Inr m"
| "correction_map (c # cs) m =
     (case py_getitem c (ascii ''index'') of
        Inl e \<Rightarrow> Inl e
      | Inr k \<Rightarrow> if hashable k then correction_map cs (m(k \<mapsto> c)) else Inl TypeError)"

text \<open>The loop over the parsed cues.\<close>

fun merge_cues :: "(pyval \<rightharpoonup> pyval) \<Rightarrow> subtitle list \<Rightarrow> error + subtitle list" where
  "merge_cues m [] = Inr []"
| "merge_cues m ((idx, timestamp, orig, old) # rest) =
     (case m (PStr idx) of
        Some c \<Rightarrow>
          (case py_getitem c (ascii ''corrected'') of
             Inl e \<Rightarrow> Inl e
           | Inr new \<Rightarrow>
               (case merge_cues m rest of
                  Inl e \<Rightarrow> Inl e
                | Inr result \<Rightarrow> Inr ((idx, timestamp, orig, new) # result)))
      | None \<Rightarrow>
          (case merge_cues m rest of
             Inl e \<Rightarrow> Inl e
           | Inr result \<Rightarrow> Inr ((idx, timestamp, orig, PStr orig) # result)))"

definition apply_corrections :: "subtitle list \<Rightarrow> pyval \<Rightarrow> error + subtitle list" where
  "apply_corrections subtitles corrections =
     (case py_iter corrections of
        Inl e \<Rightarrow> Inl e
      | Inr cs \<Rightarrow>
          (case correction_map cs Map.empty of
             Inl e \<Rightarrow> Inl e
           | Inr m \<Rightarrow> merge_cues m subtitles))"

text \<open>
  A correction record as the specification describes it, with its four string fields, and
  the dictionary it is in Python.
\<close>

record correction =
  c_index :: pystr
  c_original :: pystr
  c_corrected :: pystr
  c_reason :: pystr

definition correction_dict :: "correction \<Rightarrow> pyval" where
  "correction_dict c =
     PDict [(ascii ''index'', PStr (c_index c)), (ascii ''original'', PStr (c_original c)),
            (ascii ''corrected'', PStr (c_corrected c)), (ascii ''reason'', PStr (c_reason c))]"

text \<open>The record a cue index is mapped to: the last one in the list that carries it.\<close>

fun last_match :: "pystr \<Rightarrow> correction list \<Rightarrow> correction option" where
  "last_match idx [] = None"
| "last_match idx (c # cs) =
     (case last_match idx cs of
        Some d \<Rightarrow> Some d
      | None \<Rightarrow> if c_index c = idx then Some c else None)"

definition merged :: "correction list \<Rightarrow> subtitle \<Rightarrow> subtitle" where
  "merged cs s =
     (case s of (idx, timestamp, orig, old) \<Rightarrow>
        (idx, timestamp, orig,
         case last_match idx cs of None \<Rightarrow> PStr orig | Some c \<Rightarrow> PStr (c_corrected c)))"

text \<open>The part of a cue the merge is not meant to touch.\<close>

definition identity_of :: "subtitle \<Rightarrow> pystr \<times> pystr \<times> pystr" where
  "identity_of s = (case s of (idx, timestamp, orig, new) \<Rightarrow> (idx, timestamp, orig))"

section \<open>Subtitle codec (main.py, optimize.py)\<close>

text \<open>\<open>sep.join(xs)\<close>.\<close>

fun join :: "pystr \<Rightarrow> pystr list \<Rightarrow> pystr" where
  "join sep [] = []"
| "join sep [x] = x"
| "join sep (x # y # ys) = x @ sep @ join sep (y # ys)"

text \<open>\<open>s.split(c)\<close> for a separator of one character: empty pieces are kept, and the empty
  string gives one empty piece.\<close>

fun split_on :: "nat \<Rightarrow> pystr \<Rightarrow> pystr list" where
  "split_on c [] = [[]]"
| "split_on c (x # xs) =
     (if x = c then [] # split_on c xs
      else (case split_on c xs of [] \<Rightarrow> [[x]] | p # ps \<Rightarrow> (x # p) # ps))"

text \<open>
  \<open>re.split(r'\n\n+', s)\<close>: the string is cut at every maximal run of two or more line
  feeds; a single line feed stays inside its piece.
\<close>

function re_split_blank :: "pystr \<Rightarrow> pystr list" where
  "re_split_blank [] = [[]]"
| "re_split_blank (x # xs) =
     (if x = 10 \<and> xs \<noteq> [] \<and> hd xs = 10
      then [] # re_split_blank (dropWhile (\<lambda>c. c = 10) xs)
      else (case re_split_blank xs of [] \<Rightarrow> [[x]] | p # ps \<Rightarrow> (x # p) # ps))"
  by pat_completeness auto
termination
  by (relation "measure length") (auto simp: length_dropWhile_le less_Suc_eq_le)

text \<open>
  Files. A file system maps a path to the text of the file. The programs open their files
  with \<open>encoding='utf-8'\<close> and no \<open>newline\<close> argument: on a POSIX system writing stores the
  string as it is, and reading translates every \<open>\r\n\<close> and every remaining \<open>\r\<close> to \<open>\n\<close>
  (universal newlines).
\<close>

type_synonym files = "pystr \<rightharpoonup> pystr"

fun universal_newlines :: "pystr \<Rightarrow> pystr" where
  "universal_newlines [] = []"
| "universal_newlines [x] = (if x = 13 then [10] else [x])"
| "universal_newlines (x # y # ys) =
     (if x = 13 \<and> y = 10 then 10 # universal_newlines ys
      else if x = 13 then 10 # universal_newlines (y # ys)
      else x # universal_newlines (y # ys))"

definition file_write :: "pystr \<Rightarrow> pystr \<Rightarrow> files \<Rightarrow> files" where
  "file_write path s fs = fs(path \<mapsto> s)"

definition file_read :: "pystr \<Rightarrow> files \<Rightarrow> error + pystr" where
  "file_read path fs =
     (case fs path of None \<Rightarrow> Inl FileNotFoundError | Some s \<Rightarrow> Inr (universal_newlines s))"

text \<open>The timestamp line of a cue.\<close>

definition time_range :: "segment \<Rightarrow> pystr" where
  "time_range seg = srt_time (start_ms seg) @ ascii '' --> '' @ srt_time (end_ms seg)"

text \<open>The loop of \<open>write_srt\<close> over \<open>enumerate(segs, 1)\<close>: four lines for every cue.\<close>

fun srt_lines :: "nat \<Rightarrow> segment list \<Rightarrow> pystr list" where
  "srt_lines i [] = []"
| "srt_lines i (seg # segs) =
     [digits i, time_range seg, text seg, []] @ srt_lines (Suc i) segs"

definition write_srt :: "segment list \<Rightarrow> pystr \<Rightarrow> files \<Rightarrow> files" where
  "write_srt segs out_srt fs = file_write out_srt (join [10] (srt_lines 1 segs)) fs"

text \<open>The loop of \<open>parse_srt\<close> over the blocks.\<close>

fun parse_blocks :: "pystr list \<Rightarrow> subtitle list" where
  "parse_blocks [] = []"
| "parse_blocks (block # blocks) =
     (let lines = split_on 10 (strip block) in
      if length lines \<ge> 3
      then (let idx = strip (lines ! 0);
                timestamp = strip (lines ! 1);
                txt = strip (join [10] (drop 2 lines))
            in (idx, timestamp, txt, PStr txt) # parse_blocks blocks)
      else parse_blocks blocks)"

definition parse_content :: "pystr \<Rightarrow> subtitle list" where
  "parse_content content = parse_blocks (re_split_blank (strip content))"

definition parse_srt :: "pystr \<Rightarrow> files \<Rightarrow> error + subtitle list" where
  "parse_srt srt_path fs =
     (case file_read srt_path fs of Inl e \<Rightarrow> Inl e | Inr content \<Rightarrow> Inr (parse_content content))"

text \<open>
  The format's invariants on a cue text, as the specification lists them: not empty, no
  white space at either end, no blank line inside.
\<close>

fun has_blank_line :: "pystr \<Rightarrow> bool" where
  "has_blank_line [] = False"
| "has_blank_line [a] = False"
| "has_blank_line (a # b # xs) = ((a = 10 \<and> b = 10) \<or> has_blank_line (b # xs))"

definition cue_text_ok :: "pystr \<Rightarrow> bool" where
  "cue_text_ok t \<longleftrightarrow> t \<noteq> [] \<and> \<not> isspace (hd t) \<and> \<not> isspace (last t) \<and> \<not> has_blank_line t"

text \<open>What the parse of a written file is expected to return for the cue numbered \<open>i\<close>.\<close>

fun expected_entries :: "nat \<Rightarrow> segment list \<Rightarrow> subtitle list" where
  "expected_entries i [] = []"
| "expected_entries i (seg # segs) =
     (digits i, time_range seg, text seg, PStr (text seg)) # expected_entries (Suc i) segs"

text \<open>
  The text of one block of a written file, without the blank line that ends it, and the
  blocks of a cue list numbered from \<open>i\<close>.
\<close>

definition block_text :: "nat \<Rightarrow> segment \<Rightarrow> pystr" where
  "block_text i seg = digits i @ [10] @ time_range seg @ [10] @ text seg"

fun blocks_of :: "nat \<Rightarrow> segment list \<Rightarrow> pystr list" where
  "blocks_of i [] = []"
| "blocks_of i (seg # segs) = block_text i seg # blocks_of (Suc i) segs"

section \<open>Proofreading flow (optimize.py)\<close>

text \<open>Sequencing of calls that may raise: the first exception ends the computation.\<close>

definition bind_err :: "error + 'a \<Rightarrow> ('a \<Rightarrow> error + 'b) \<Rightarrow> error + 'b" where
  "bind_err r f = (case r of Inl e \<Rightarrow> Inl e | Inr x \<Rightarrow> f x)"

text \<open>\<open>len(v)\<close>.\<close>

fun py_len :: "pyval \<Rightarrow> error + nat" where
  "py_len (PStr s) = Inr (length s)"
| "py_len (PList xs) = Inr (length xs)"
| "py_len (PDict d) = Inr (length (remdups (map fst d)))"
| "py_len v = Inl TypeError"

text \<open>The text an f-string puts for a value; floats and containers are not modelled.\<close>

fun py_format :: "pyval \<Rightarrow> error + pystr" where
  "py_format (PStr s) = Inr s"
| "py_format (PInt n) = Inr (py_str_int n)"
| "py_format PNone = Inr (ascii ''None'')"
| "py_format (PBool b) = Inr (if b then ascii ''True'' else ascii ''False'')"
| "py_format v = Inl Unmodelled"

text \<open>\<open>os.path.basename\<close>, \<open>os.path.splitext(p)[0]\<close> and \<open>os.path.join\<close> of two parts, on a
  POSIX system (separator \<open>/\<close>).\<close>

definition basename :: "pystr \<Rightarrow> pystr" where
  "basename p = rev (takeWhile (\<lambda>c. c \<noteq> 47) (rev p))"

definition splitext_root :: "pystr \<Rightarrow> pystr" where
  "splitext_root p =
     (let name = basename p;
          stem = rev (tl (dropWhile (\<lambda>c. c \<noteq> 46) (rev name)))
      in if 46 \<in> set name \<and> (\<exists>c\<in>set stem. c \<noteq> 46)
         then take (length p - length name) p @ stem
         else p)"

definition path_join :: "pystr \<Rightarrow> pystr \<Rightarrow> pystr" where
  "path_join a b =
     (if b \<noteq> [] \<and> hd b = 47 then b
      else if a = [] \<or> last a = 47 then a @ b
      else a @ [47] @ b)"

text \<open>The loop of \<open>write_optimized_srt\<close>; \<open>'\n'.join\<close> accepts strings only.\<close>

fun optimized_lines :: "subtitle list \<Rightarrow> error + pystr list" where
  "optimized_lines [] = Inr []"
| "optimized_lines ((idx, timestamp, orig, PStr new) # rest) =
     bind_err (optimized_lines rest) (\<lambda>ls. Inr ([idx, timestamp, new, []] @ ls))"
| "optimized_lines ((idx, timestamp, orig, new) # rest) = Inl TypeError"

definition write_optimized_srt :: "subtitle list \<Rightarrow> pystr \<Rightarrow> files \<Rightarrow> error + files" where
  "write_optimized_srt subtitles output_path fs =
     bind_err (optimized_lines subtitles) (\<lambda>ls. Inr (file_write output_path (join [10] ls) fs))"

text \<open>The literals of the flow that matter below: the summary of the \<open>except\<close> branch, the
  default summary, and the report line for an empty correction list.\<close>

definition parse_failed_note :: pystr where
  "parse_failed_note = [35299, 26512, 22833, 36133]"

definition default_summary :: pystr where
  "default_summary = [26080, 24635, 32467, 35828, 26126]"

definition nothing_to_fix_line :: pystr where
  "nothing_to_fix_line =
     [9989, 32, 26410, 21457, 29616, 38656, 35201, 20462, 27491, 30340, 38382, 39064, 12290]"

text \<open>The report section for the corrections, one group of six lines for each record.\<close>

fun correction_lines :: "pyval list \<Rightarrow> error + pystr list" where
  "correction_lines [] = Inr []"
| "correction_lines (c # cs) =
     bind_err (py_getitem c (ascii ''index'')) (\<lambda>idx.
     bind_err (py_getitem c (ascii ''original'')) (\<lambda>orig.
     bind_err (py_getitem c (ascii ''corrected'')) (\<lambda>new.
     bind_err (py_getitem c (ascii ''reason'')) (\<lambda>reason.
     bind_err (py_format idx) (\<lambda>idx_s.
     bind_err (py_format orig) (\<lambda>orig_s.
     bind_err (py_format new) (\<lambda>new_s.
     bind_err (py_format reason) (\<lambda>reason_s.
     bind_err (correction_lines cs) (\<lambda>ls.
       Inr ([ascii ''### #'' @ idx_s, [],
             [45, 32, 42, 42, 21407, 25991, 42, 42, 58, 32] @ orig_s,
             [45, 32, 42, 42, 20462, 27491, 42, 42, 58, 32] @ new_s,
             [45, 32, 42, 42, 21407, 22240, 42, 42, 58, 32] @ reason_s,
             []] @ ls))))))))))"

definition shorten :: "pystr \<Rightarrow> pystr" where
  "shorten s = (if length s > 50 then take 50 s @ ascii ''...'' else s)"

text \<open>The comparison table, one row for each cue.\<close>

fun table_rows :: "subtitle list \<Rightarrow> error + pystr list" where
  "table_rows [] = Inr []"
| "table_rows ((idx, timestamp, orig, new) # rest) =
     (let status = (if PStr orig \<noteq> new then [9999, 65039] else [10003]);
          original_short = shorten orig
      in bind_err
           (case new of
              PStr s \<Rightarrow> Inr (shorten s)
            | PList xs \<Rightarrow> if length xs > 50 then Inl TypeError else Inl Unmodelled
            | PDict d \<Rightarrow> Inl Unmodelled
            | _ \<Rightarrow> Inl TypeError)
           (\<lambda>corrected_short.
              bind_err (table_rows rest) (\<lambda>ls.
                Inr ((ascii ''| '' @ idx @ ascii '' | '' @ original_short @ ascii '' | '' @
                      corrected_short @ ascii '' | '' @ status @ ascii '' |'') # ls))))"

text \<open>All the lines of the report. \<open>now\<close> is the text of
  \<open>datetime.now().strftime("%Y-%m-%d %H:%M:%S")\<close>.\<close>

definition report_lines ::
  "pystr \<Rightarrow> pystr \<Rightarrow> subtitle list \<Rightarrow> pyval \<Rightarrow> pyval \<Rightarrow> pystr \<Rightarrow> error + pystr list" where
  "report_lines input_srt output_srt subtitles corrections summary now =
     bind_err (py_format summary) (\<lambda>summary_s.
     bind_err
       (if \<not> truthy corrections then Inr [nothing_to_fix_line]
        else
          bind_err (py_len corrections) (\<lambda>n.
          bind_err (py_iter corrections) (\<lambda>cs.
          bind_err (correction_lines cs) (\<lambda>ls.
            Inr ([[20849, 20462, 27491, 32, 42, 42] @ digits n @ [42, 42, 32, 22788, 65306], []]
                 @ ls)))))
       (\<lambda>detail.
     bind_err (table_rows subtitles) (\<lambda>rows.
       Inr ([[35, 32, 23383, 24149, 26657, 23545, 25253, 21578],
             [],
             [42, 42, 29983, 25104, 26102, 38388, 42, 42, 58, 32] @ now @ ascii ''  '',
             [42, 42, 21407, 22987, 25991, 20214, 42, 42, 58, 32, 96] @ basename input_srt
               @ ascii ''`  '',
             [42, 42, 20248, 21270, 25991, 20214, 42, 42, 58, 32, 96] @ basename output_srt
               @ ascii ''`  '',
             [],
             [35, 35, 32, 24635, 20307, 35828, 26126],
             [],
             summary_s,
             [],
             [35, 35, 32, 20462, 27491, 35814, 24773],
             []]
            @ detail
            @ [[], ascii ''---'', [],
               [35, 35, 32, 23436, 25972, 23545, 29031],
               [],
               [124, 32, 24207, 21495, 32, 124, 32, 21407, 25991, 32, 124, 32, 20462, 27491,
                21518, 32, 124, 32, 29366, 24577, 32, 124],
               ascii ''|------|------|--------|------|'']
            @ rows))))"

definition write_report ::
  "pystr \<Rightarrow> pystr \<Rightarrow> subtitle list \<Rightarrow> pyval \<Rightarrow> pyval \<Rightarrow> pystr \<Rightarrow> pystr \<Rightarrow> files
     \<Rightarrow> error + files" where
  "write_report input_srt output_srt subtitles corrections summary report_path now fs =
     bind_err (report_lines input_srt output_srt subtitles corrections summary now) (\<lambda>ls.
       Inr (file_write report_path (join [10] ls) fs))"

text \<open>
  \<open>optimize_srt\<close>. The call to the proofreading service is outside the model: \<open>decoded\<close> is
  what \<open>json.loads\<close> makes of the text the service returned, \<open>None\<close> when it raises
  \<open>JSONDecodeError\<close>. Directories are not modelled, so \<open>os.makedirs\<close> has no effect here.
\<close>

definition output_srt_path :: "pystr \<Rightarrow> pystr \<Rightarrow> pystr" where
  "output_srt_path input_srt output_dir =
     path_join output_dir (splitext_root (basename input_srt) @ ascii ''_optimized.srt'')"

definition report_md_path :: "pystr \<Rightarrow> pystr \<Rightarrow> pystr" where
  "report_md_path input_srt output_dir =
     path_join output_dir (splitext_root (basename input_srt) @ ascii ''_report.md'')"

definition optimize_srt ::
  "pystr \<Rightarrow> pystr \<Rightarrow> pyval option \<Rightarrow> pystr \<Rightarrow> files \<Rightarrow> error + files" where
  "optimize_srt input_srt output_dir decoded now fs =
     (if fs input_srt = None then Inl FileNotFoundError
      else
        let output_srt = output_srt_path input_srt output_dir;
            report_path = report_md_path input_srt output_dir
        in
        bind_err (parse_srt input_srt fs) (\<lambda>subtitles.
        bind_err
          (case decoded of
             None \<Rightarrow> Inr (PList [], PStr parse_failed_note)
           | Some (PDict response_data) \<Rightarrow>
               Inr (dict_get response_data (ascii ''corrections'') (PList []),
                    dict_get response_data (ascii ''summary'') (PStr default_summary))
           | Some v \<Rightarrow> Inl AttributeError)
          (\<lambda>(corrections, summary).
        bind_err (py_len corrections) (\<lambda>n.
        bind_err (apply_corrections subtitles corrections) (\<lambda>optimized_subtitles.
        bind_err (write_optimized_srt optimized_subtitles output_srt fs) (\<lambda>fs1.
          write_report input_srt output_srt optimized_subtitles corrections summary
            report_path now fs1))))))"

text \<open>The input of the examples below: a subtitle file with one cue.\<close>

definition one_cue_files :: files where
  "one_cue_files =
     [ascii ''output/a.srt'' \<mapsto>
        ascii ''1'' @ [10] @ ascii ''00:00:00,000 --> 00:00:01,000'' @ [10] @ ascii ''orig'' @ [10]]"

text \<open>A parsed cue list as \<open>parse_srt\<close> returns it: the fourth component repeats the third.\<close>

definition unchanged :: "subtitle \<Rightarrow> bool" where
  "unchanged s = (case s of (idx, timestamp, orig, new) \<Rightarrow> new = PStr orig)"

section \<open>Properties of the text normaliser\<close>

lemma rstrip_Nil [simp]: "rstrip [] = []"
  by (simp add: rstrip_def)

lemma rstrip_last: "rstrip s \<noteq> [] \<Longrightarrow> \<not> isspace (last (rstrip s))"
proof -
  assume ne: "rstrip s \<noteq> []"
  then have d: "dropWhile isspace (rev s) \<noteq> []" by (simp add: rstrip_def)
  then have "\<not> isspace (hd (dropWhile isspace (rev s)))" by (rule hd_dropWhile)
  with d show ?thesis by (simp add: rstrip_def last_rev)
qed

lemma rstrip_id: "s = [] \<or> \<not> isspace (last s) \<Longrightarrow> rstrip s = s"
proof (cases "s = []")
  case True
  then show ?thesis by simp
next
  case False
  assume "s = [] \<or> \<not> isspace (last s)"
  with False have "\<not> isspace (hd (rev s))" by (simp add: hd_rev)
  with False have "dropWhile isspace (rev s) = rev s" by (cases "rev s") auto
  then show ?thesis by (simp add: rstrip_def)
qed

lemma strip_loop_settled:
  "t = [] \<or> \<not> isspace (last t) \<Longrightarrow> settled (strip_loop t)"
proof (induction t rule: strip_loop.induct)
  case (1 t)
  show ?case
  proof (cases "t \<noteq> [] \<and> last t \<in> set trailing")
    case True
    have "rstrip (butlast t) = [] \<or> \<not> isspace (last (rstrip (butlast t)))"
      using rstrip_last [of "butlast t"] by blast
    with True "1.IH" have "settled (strip_loop (rstrip (butlast t)))" by blast
    with True show ?thesis by (subst strip_loop.simps) simp
  next
    case False
    with "1.prems" show ?thesis by (subst strip_loop.simps) (auto simp: settled_def)
  qed
qed

lemma strip_trailing_punc_settled: "settled (strip_trailing_punc s)"
proof (cases "s = []")
  case True
  then show ?thesis by (simp add: strip_trailing_punc_def settled_def)
next
  case False
  have "rstrip s = [] \<or> \<not> isspace (last (rstrip s))" using rstrip_last [of s] by blast
  then have "settled (strip_loop (rstrip s))" by (rule strip_loop_settled)
  with False show ?thesis by (simp add: strip_trailing_punc_def)
qed

lemma settled_fixpoint: "settled t \<Longrightarrow> strip_trailing_punc t = t"
proof (cases "t = []")
  case True
  then show ?thesis by (simp add: strip_trailing_punc_def)
next
  case False
  assume "settled t"
  with False have ns: "\<not> isspace (last t)" and nt: "last t \<notin> set trailing"
    by (auto simp: settled_def)
  from ns have "rstrip t = t" by (simp add: rstrip_id)
  moreover from nt have "strip_loop t = t" by (subst strip_loop.simps) simp
  ultimately show ?thesis using False by (simp add: strip_trailing_punc_def)
qed

text \<open>
  Claim C9. The trailing-punctuation stripper is idempotent: stripping an already
  stripped string changes nothing.
\<close>

theorem strip_trailing_punc_idempotent:
  "strip_trailing_punc (strip_trailing_punc s) = strip_trailing_punc s"
  by (rule settled_fixpoint) (rule strip_trailing_punc_settled)

section \<open>Properties of the timestamp formatter\<close>

lemma digits_isdigit: "list_all isdigit (digits n)"
proof (induction n rule: digits.induct)
  case (1 n)
  show ?case
  proof (cases "n < 10")
    case True
    then show ?thesis by (subst digits.simps) (simp add: isdigit_def)
  next
    case False
    have "n mod 10 < 10" by simp
    then have "isdigit (48 + n mod 10)" unfolding isdigit_def by linarith
    with False "1.IH" show ?thesis by (subst digits.simps) simp
  qed
qed

lemma dec_value_snoc: "dec_value (ds @ [c]) = 10 * dec_value ds + (c - 48)"
  by (simp add: dec_value_def)

lemma dec_value_digits: "dec_value (digits n) = n"
proof (induction n rule: digits.induct)
  case (1 n)
  show ?case
  proof (cases "n < 10")
    case True
    then show ?thesis by (subst digits.simps) (simp add: dec_value_def)
  next
    case False
    with "1.IH" have "dec_value (digits (n div 10)) = n div 10" by simp
    with False show ?thesis by (subst digits.simps) (simp add: dec_value_snoc)
  qed
qed

lemma dec_value_zeros: "dec_value (replicate k 48 @ ds) = dec_value ds"
proof -
  have "foldl (\<lambda>a c. 10 * a + (c - 48)) 0 (replicate k (48::nat)) = 0"
    by (induction k) simp_all
  then show ?thesis by (simp add: dec_value_def)
qed

lemma length_digits_pos: "0 < length (digits n)"
  by (subst digits.simps) simp

lemma length_digits_le: "0 < k \<Longrightarrow> n < 10 ^ k \<Longrightarrow> length (digits n) \<le> k"
proof (induction n arbitrary: k rule: digits.induct)
  case (1 n)
  show ?case
  proof (cases "n < 10")
    case True
    with "1.prems" show ?thesis by (subst digits.simps) simp
  next
    case False
    obtain j where k: "k = Suc j" using "1.prems"(1) by (cases k) auto
    have "j \<noteq> 0" using False "1.prems"(2) k by (cases j) auto
    moreover have "n div 10 < 10 ^ j" using "1.prems"(2) k
      by (simp add: less_mult_imp_div_less mult.commute)
    ultimately have "length (digits (n div 10)) \<le> j" using "1.IH" False by simp
    with False k show ?thesis by (subst digits.simps) simp
  qed
qed

text \<open>A non-negative field below \<open>10 ^ w\<close> is rendered in exactly \<open>w\<close> digits that denote it.\<close>

lemma fmt_d_field:
  assumes "0 \<le> i" and "i < 10 ^ w" and "0 < w"
  shows "length (fmt_d w i) = w \<and> list_all isdigit (fmt_d w i) \<and> int (dec_value (fmt_d w i)) = i"
proof -
  have "nat i < 10 ^ w" using assms(1,2) by (simp add: nat_less_iff)
  then have "length (digits (nat i)) \<le> w" using assms(3) by (simp add: length_digits_le)
  moreover have "isdigit 48" by (simp add: isdigit_def)
  ultimately show ?thesis using assms(1)
    by (auto simp: fmt_d_def zero_pad_def dec_value_zeros dec_value_digits list_all_iff
        dest: digits_isdigit [unfolded list_all_iff, rule_format])
qed

lemma fmt_d_unbounded:
  assumes "0 \<le> i"
  shows "w \<le> length (fmt_d w i) \<and> list_all isdigit (fmt_d w i) \<and> int (dec_value (fmt_d w i)) = i"
proof -
  have "isdigit 48" by (simp add: isdigit_def)
  then show ?thesis using assms
    by (auto simp: fmt_d_def zero_pad_def dec_value_zeros dec_value_digits list_all_iff
        dest: digits_isdigit [unfolded list_all_iff, rule_format])
qed

lemma srt_time_fields:
  assumes "0 \<le> ms"
  shows "\<exists>h m s f.
           srt_time ms = h @ [58] @ m @ [58] @ s @ [44] @ f \<and>
           list_all isdigit h \<and> list_all isdigit m \<and> list_all isdigit s \<and> list_all isdigit f \<and>
           2 \<le> length h \<and> length m = 2 \<and> length s = 2 \<and> length f = 3 \<and>
           int (dec_value h) = ms div 3600000 \<and>
           int (dec_value h) * 3600000 + int (dec_value m) * 60000 + int (dec_value s) * 1000
             + int (dec_value f) = ms"
proof -
  define hh where "hh = ms div 3600000"
  define mm where "mm = (ms mod 3600000) div 60000"
  define ss where "ss = (ms mod 60000) div 1000"
  define mmm where "mmm = ms mod 1000"
  have hh: "0 \<le> hh" using assms by (simp add: hh_def)
  have mm: "0 \<le> mm" "mm < 10 ^ 2" by (simp_all add: mm_def)
  have ss: "0 \<le> ss" "ss < 10 ^ 2" by (simp_all add: ss_def)
  have mmm: "0 \<le> mmm" "mmm < 10 ^ 3" by (simp_all add: mmm_def)
  have a: "ms = 3600000 * hh + ms mod 3600000" by (simp add: hh_def)
  have "(ms mod 3600000) mod 60000 = ms mod 60000" by (rule mod_mod_cancel) simp
  then have b: "ms mod 3600000 = 60000 * mm + ms mod 60000"
    using mult_div_mod_eq [of 60000 "ms mod 3600000"] by (simp add: mm_def)
  have "(ms mod 60000) mod 1000 = ms mod 1000" by (rule mod_mod_cancel) simp
  then have c: "ms mod 60000 = 1000 * ss + mmm"
    using mult_div_mod_eq [of 1000 "ms mod 60000"] by (simp add: ss_def mmm_def)
  have sum: "hh * 3600000 + mm * 60000 + ss * 1000 + mmm = ms"
    using a b c by linarith
  have eq: "srt_time ms = fmt_d 2 hh @ [58] @ fmt_d 2 mm @ [58] @ fmt_d 2 ss @ [44] @ fmt_d 3 mmm"
    using assms by (simp add: srt_time_def hh_def mm_def ss_def mmm_def)
  note H = fmt_d_unbounded [OF hh, of 2]
  note M = fmt_d_field [OF mm, simplified]
  note S = fmt_d_field [OF ss, simplified]
  note F = fmt_d_field [OF mmm, simplified]
  show ?thesis
    apply (rule exI [of _ "fmt_d 2 hh"], rule exI [of _ "fmt_d 2 mm"])
    apply (rule exI [of _ "fmt_d 2 ss"], rule exI [of _ "fmt_d 3 mmm"])
    using eq H M S F sum hh_def by simp
qed

lemma srt_time_negative: "ms < 0 \<Longrightarrow> srt_time ms = srt_time 0"
  by (simp add: srt_time_def)

text \<open>
  Claim C7. For \<open>ms \<ge> 0\<close> the formatter returns \<open>HH:MM:SS,mmm\<close>: decimal fields separated
  by two colons and a comma, the minute and second fields two digits wide, the millisecond
  field three, the hour field at least two and holding \<open>ms div 3600000\<close> unwrapped; reading
  the fields back as \<open>hours * 3600000 + minutes * 60000 + seconds * 1000 + milliseconds\<close>
  gives \<open>ms\<close>. For \<open>ms < 0\<close> the output is that of \<open>0\<close>.
\<close>

theorem srt_time_roundtrip:
  "(0 \<le> ms \<longrightarrow>
      (\<exists>h m s f.
         srt_time ms = h @ [58] @ m @ [58] @ s @ [44] @ f \<and>
         list_all isdigit h \<and> list_all isdigit m \<and> list_all isdigit s \<and> list_all isdigit f \<and>
         2 \<le> length h \<and> length m = 2 \<and> length s = 2 \<and> length f = 3 \<and>
         int (dec_value h) = ms div 3600000 \<and>
         int (dec_value h) * 3600000 + int (dec_value m) * 60000 + int (dec_value s) * 1000
           + int (dec_value f) = ms)) \<and>
   (ms < 0 \<longrightarrow> srt_time ms = srt_time 0)"
  using srt_time_fields [of ms] srt_time_negative [of ms] by blast

theorem srt_time_roundtrip_witness:
  "(\<exists>h m s f.
      srt_time 3723004 = h @ [58] @ m @ [58] @ s @ [44] @ f \<and>
      list_all isdigit h \<and> list_all isdigit m \<and> list_all isdigit s \<and> list_all isdigit f \<and>
      2 \<le> length h \<and> length m = 2 \<and> length s = 2 \<and> length f = 3 \<and>
      int (dec_value h) = 3723004 div 3600000 \<and>
      int (dec_value h) * 3600000 + int (dec_value m) * 60000 + int (dec_value s) * 1000
        + int (dec_value f) = 3723004) \<and>
   srt_time (- 5) = srt_time 0"
  using srt_time_roundtrip [of 3723004] srt_time_roundtrip [of "- 5"] by simp

section \<open>Properties of the segment builder\<close>

lemmas eval_text = ascii_def strip_def lstrip_def rstrip_def isspace_def trailing_def
  strip_trailing_punc_def strip_loop.simps

lemmas eval_builder = funasr_to_segments_def swept_def extend_last_def dict_get_def

lemma norm_text_error: "norm_text v = Inl e \<Longrightarrow> e = AttributeError"
  by (cases v) (auto split: if_splits)

lemma py_int_error: "py_int v = Inl e \<Longrightarrow> e = TypeError \<or> e = Unmodelled"
  by (cases v) auto

lemma py_iter_error: "py_iter v = Inl e \<Longrightarrow> e = TypeError"
  by (cases v) auto

lemma collect_error:
  "collect audio_ms ss = Inl e \<Longrightarrow> e = AttributeError \<or> e = TypeError \<or> e = Unmodelled"
proof (induction audio_ms ss rule: collect.induct)
  case (1 audio_ms)
  then show ?case by simp
next
  case (2 audio_ms d rest)
  then show ?case
    by (auto simp: Let_def split: sum.splits if_splits dest: norm_text_error py_int_error)
qed simp_all

lemma swept_no_sentence_info:
  "swept res audio_ms = Inl NoSentenceInfo \<longleftrightarrow>
     (\<exists>r0 others. res = PList (PDict r0 # others) \<and>
        \<not> truthy (dict_get r0 (ascii ''sentence_info'') PNone))"
proof (cases "\<exists>r0 others. res = PList (PDict r0 # others)")
  case False
  then have "swept res audio_ms = Inl UnexpectedFormat"
    by (auto simp: swept_def split: pyval.splits list.splits)
  with False show ?thesis by auto
next
  case True
  then obtain r0 others where res: "res = PList (PDict r0 # others)" by blast
  show ?thesis
  proof (cases "truthy (dict_get r0 (ascii ''sentence_info'') PNone)")
    case False
    with res show ?thesis by (simp add: swept_def)
  next
    case t: True
    have "swept res audio_ms \<noteq> Inl NoSentenceInfo"
      using res t by (auto simp: swept_def split: sum.splits dest: py_iter_error collect_error)
    with res t show ?thesis by simp
  qed
qed

text \<open>
  Claim C2, as the code has it. \<open>funasr_to_segments\<close> raises its "NO sentence_info" error
  exactly when the first record of the result has no \<open>sentence_info\<close> entry or a falsy one
  (\<open>None\<close>, an empty list); token-level \<open>timestamp\<close> data plays no part in the decision,
  and there is no fallback path.
\<close>

theorem funasr_no_sentence_info_iff:
  "funasr_to_segments res audio_ms = Inl NoSentenceInfo \<longleftrightarrow>
     (\<exists>r0 others. res = PList (PDict r0 # others) \<and>
        \<not> truthy (dict_get r0 (ascii ''sentence_info'') PNone))"
proof -
  have "funasr_to_segments res audio_ms = Inl NoSentenceInfo \<longleftrightarrow>
        swept res audio_ms = Inl NoSentenceInfo"
    by (simp add: funasr_to_segments_def split: sum.splits)
  then show ?thesis by (simp add: swept_no_sentence_info)
qed

theorem funasr_no_sentence_info_iff_witness:
  "funasr_to_segments (PList [PDict [(ascii ''sentence_info'', PList [])]]) 1000
     = Inl NoSentenceInfo"
  using funasr_no_sentence_info_iff
    [of "PList [PDict [(ascii ''sentence_info'', PList [])]]" 1000]
  by (simp add: dict_get_def)

text \<open>
  A result in token mode, with a transcript and one timestamp pair per character but no
  \<open>sentence_info\<close>: the builder raises instead of producing cues.
\<close>

theorem funasr_token_mode_counterexample:
  "funasr_to_segments
     (PList [PDict [(ascii ''text'', PStr (ascii ''hi'')),
                    (ascii ''timestamp'',
                       PList [PList [PInt 0, PInt 100], PList [PInt 100, PInt 200]])]])
     1000 = Inl NoSentenceInfo"
  by (simp add: eval_builder ascii_def)

lemma extend_last_shape:
  assumes "fixed \<noteq> []"
  shows "length (extend_last audio_ms fixed) = length fixed \<and>
         butlast (extend_last audio_ms fixed) = butlast fixed \<and>
         start_ms (last (extend_last audio_ms fixed)) = start_ms (last fixed) \<and>
         text (last (extend_last audio_ms fixed)) = text (last fixed) \<and>
         end_ms (last (extend_last audio_ms fixed)) =
           (if audio_ms - end_ms (last fixed) \<ge> 800 then audio_ms else end_ms (last fixed))"
  using assms by (simp add: extend_last_def)

lemma extend_last_Nil_iff: "extend_last audio_ms fixed = [] \<longleftrightarrow> fixed = []"
  by (simp add: extend_last_def)

text \<open>
  Claim C8. When \<open>funasr_to_segments\<close> returns a non-empty cue list for the media duration
  \<open>D\<close>, the list is the swept list with only its last cue touched: every cue before the
  last is the swept one, the last keeps its start and text, and its end is \<open>D\<close> when the
  swept end trails \<open>D\<close> by at least 800 ms and the swept end otherwise.
\<close>

theorem last_cue_extension:
  assumes "funasr_to_segments res D = Inr out" and "out \<noteq> []"
  shows "\<exists>fixed. swept res D = Inr fixed \<and> fixed \<noteq> [] \<and>
           length out = length fixed \<and>
           butlast out = butlast fixed \<and>
           start_ms (last out) = start_ms (last fixed) \<and>
           text (last out) = text (last fixed) \<and>
           end_ms (last out) = (if D - end_ms (last fixed) \<ge> 800 then D else end_ms (last fixed))"
proof -
  from assms(1) obtain fixed where f: "swept res D = Inr fixed" and o: "out = extend_last D fixed"
    by (auto simp: funasr_to_segments_def split: sum.splits)
  from o assms(2) have ne: "fixed \<noteq> []" by (simp add: extend_last_Nil_iff)
  from extend_last_shape [OF ne, of D] f o ne show ?thesis by blast
qed

lemma scenario_short_gap:
  "funasr_to_segments scenario_res 1000 =
     Inr [\<lparr>start_ms = 0, end_ms = 500, text = [20320, 22909]\<rparr>,
          \<lparr>start_ms = 500, end_ms = 900, text = [20877, 35265]\<rparr>]"
  by (simp add: scenario_res_def eval_builder eval_text)

lemma scenario_long_gap:
  "funasr_to_segments scenario_res 1700 =
     Inr [\<lparr>start_ms = 0, end_ms = 500, text = [20320, 22909]\<rparr>,
          \<lparr>start_ms = 500, end_ms = 1700, text = [20877, 35265]\<rparr>]"
  by (simp add: scenario_res_def eval_builder eval_text)

theorem last_cue_extension_witness:
  "(\<exists>fixed. swept scenario_res 1000 = Inr fixed \<and> end_ms (last fixed) = 900) \<and>
   (\<exists>fixed. swept scenario_res 1700 = Inr fixed \<and>
      (end_ms (last fixed) \<le> 900 \<or> end_ms (last fixed) = 1700))"
proof -
  obtain f1 where f1: "swept scenario_res 1000 = Inr f1"
      and e1: "(900::int) = (if 1000 - end_ms (last f1) \<ge> 800 then 1000 else end_ms (last f1))"
    using last_cue_extension [OF scenario_short_gap] by auto
  obtain f2 where f2: "swept scenario_res 1700 = Inr f2"
      and e2: "(1700::int) = (if 1700 - end_ms (last f2) \<ge> 800 then 1700 else end_ms (last f2))"
    using last_cue_extension [OF scenario_long_gap] by auto
  from e1 have "end_ms (last f1) = 900" by (simp split: if_splits)
  moreover from e2 have "end_ms (last f2) \<le> 900 \<or> end_ms (last f2) = 1700"
    by (simp split: if_splits)
  ultimately show ?thesis using f1 f2 by blast
qed

subsection \<open>What the sweep guarantees\<close>

lemma collect_bounds:
  "collect audio_ms ss = Inr segs \<Longrightarrow>
   \<forall>s\<in>set segs. 0 \<le> start_ms s \<and> end_ms s \<le> audio_ms"
proof (induction audio_ms ss arbitrary: segs rule: collect.induct)
  case (1 audio_ms)
  then show ?case by simp
next
  case (2 audio_ms d rest)
  then show ?case
    by (auto simp: Let_def split: sum.splits if_splits)
qed simp_all

lemma sweep_end_le:
  "\<forall>s\<in>set segs. end_ms s \<le> D \<Longrightarrow> \<forall>c\<in>set (sweep D lo segs). end_ms c \<le> D"
  by (induction segs arbitrary: lo) (auto simp: Let_def)

lemma sweep_no_overlap: "no_overlap lo (sweep D lo segs)"
  by (induction segs arbitrary: lo) (auto simp: Let_def)

lemma sweep_positive:
  "\<forall>c\<in>set (sweep D lo segs). start_ms c < D \<longrightarrow> start_ms c < end_ms c"
  by (induction segs arbitrary: lo) (auto simp: Let_def)

lemma sweep_start_ge:
  "\<forall>s\<in>set segs. m \<le> start_ms s \<Longrightarrow> \<forall>c\<in>set (sweep D lo segs). m \<le> start_ms c"
  by (induction segs arbitrary: lo) (auto simp: Let_def)

lemma sweep_after:
  "\<forall>s\<in>set segs. end_ms s \<le> D \<Longrightarrow> lo \<le> D \<Longrightarrow> m \<le> lo \<Longrightarrow>
   \<forall>c\<in>set (sweep D lo segs). m \<le> start_ms c"
proof (induction segs arbitrary: lo)
  case Nil
  then show ?case by simp
next
  case (Cons seg rest)
  define st where "st = (if start_ms seg < lo then lo else start_ms seg)"
  define ed where "ed = (if end_ms seg \<le> st then min (st + 400) D else end_ms seg)"
  have st: "lo \<le> st" by (simp add: st_def)
  have ed_D: "ed \<le> D" using Cons.prems(1) by (simp add: ed_def)
  have ed_lo: "lo \<le> ed" using st Cons.prems(2) by (auto simp: ed_def)
  have sw: "sweep D lo (seg # rest) = seg\<lparr>start_ms := st, end_ms := ed\<rparr> # sweep D ed rest"
    by (simp add: st_def ed_def Let_def)
  have "\<forall>c\<in>set (sweep D ed rest). m \<le> start_ms c"
    using Cons.prems(1,3) ed_D ed_lo by (intro Cons.IH) auto
  with st Cons.prems(3) show ?case unfolding sw by simp
qed

lemma sweep_sorted:
  "sorted (map start_ms segs) \<Longrightarrow> \<forall>s\<in>set segs. end_ms s \<le> D \<Longrightarrow>
   lo \<le> D \<or> (\<forall>s\<in>set segs. lo \<le> start_ms s) \<Longrightarrow>
   sorted (map start_ms (sweep D lo segs))"
proof (induction segs arbitrary: lo)
  case Nil
  then show ?case by simp
next
  case (Cons seg rest)
  define st where "st = (if start_ms seg < lo then lo else start_ms seg)"
  define ed where "ed = (if end_ms seg \<le> st then min (st + 400) D else end_ms seg)"
  have ed_D: "ed \<le> D" using Cons.prems(2) by (simp add: ed_def)
  have sw: "sweep D lo (seg # rest) = seg\<lparr>start_ms := st, end_ms := ed\<rparr> # sweep D ed rest"
    by (simp add: st_def ed_def Let_def)
  have ends: "\<forall>s\<in>set rest. end_ms s \<le> D" using Cons.prems(2) by simp
  have tail: "sorted (map start_ms (sweep D ed rest))"
    using Cons.prems(1) ends ed_D by (intro Cons.IH) simp_all
  have head: "\<forall>c\<in>set (sweep D ed rest). st \<le> start_ms c"
  proof (cases "start_ms seg < lo")
    case False
    then have "st = start_ms seg" by (simp add: st_def)
    moreover have "\<forall>s\<in>set rest. start_ms seg \<le> start_ms s" using Cons.prems(1) by simp
    ultimately show ?thesis by (simp add: sweep_start_ge)
  next
    case True
    then have st: "st = lo" by (simp add: st_def)
    from True Cons.prems(3) have lo: "lo \<le> D" by auto
    then have "lo \<le> ed" by (auto simp: ed_def st)
    with ends ed_D show ?thesis unfolding st by (intro sweep_after) simp_all
  qed
  from tail head show ?case unfolding sw by simp
qed

lemma sorted_first_component:
  "sorted (map (\<lambda>x. (start_ms x, end_ms x)) xs) \<Longrightarrow> sorted (map start_ms xs)"
  by (induction xs) (auto simp: less_eq_prod_def)

lemma sort_key_starts:
  "sorted (map start_ms (sort_key (\<lambda>x. (start_ms x, end_ms x)) segs))"
  by (rule sorted_first_component) (rule sorted_sort_key)

lemma starts_last_end:
  "fixed \<noteq> [] \<Longrightarrow>
   map start_ms (butlast fixed @ [(last fixed)\<lparr>end_ms := e\<rparr>]) = map start_ms fixed"
  by (induction fixed) auto

lemma extend_last_starts: "map start_ms (extend_last D fixed) = map start_ms fixed"
  using starts_last_end [of fixed D] by (auto simp: extend_last_def)

lemma no_overlap_last_end:
  "fixed \<noteq> [] \<Longrightarrow>
   no_overlap lo (butlast fixed @ [(last fixed)\<lparr>end_ms := e\<rparr>]) = no_overlap lo fixed"
  by (induction fixed arbitrary: lo) auto

lemma extend_last_no_overlap: "no_overlap lo (extend_last D fixed) = no_overlap lo fixed"
  by (simp add: extend_last_def no_overlap_last_end)

lemma extend_last_cues:
  assumes "\<forall>c\<in>set fixed. end_ms c \<le> D \<and> (start_ms c < D \<longrightarrow> start_ms c < end_ms c)"
  shows "\<forall>c\<in>set (extend_last D fixed). end_ms c \<le> D \<and> (start_ms c < D \<longrightarrow> start_ms c < end_ms c)"
proof (cases "fixed \<noteq> [] \<and> D - end_ms (last fixed) \<ge> 800")
  case False
  with assms show ?thesis by (auto simp: extend_last_def)
next
  case True
  then have "set (butlast fixed) \<subseteq> set fixed" by (meson in_set_butlastD subsetI)
  with assms True show ?thesis by (auto simp: extend_last_def)
qed

text \<open>
  The parts of claim C1 that hold for every result and every duration: the cues returned
  are in ascending order of start, none starts before the end of the cue before it, and
  every end is at most the media duration. A cue that starts before the media end also
  ends after it starts.
\<close>

lemma funasr_cues_ordered:
  assumes "funasr_to_segments res D = Inr out"
  shows "sorted (map start_ms out) \<and> no_overlap 0 out \<and>
         (\<forall>c\<in>set out. end_ms c \<le> D \<and> (start_ms c < D \<longrightarrow> start_ms c < end_ms c))"
proof -
  from assms obtain fixed where f: "swept res D = Inr fixed" and o: "out = extend_last D fixed"
    by (auto simp: funasr_to_segments_def split: sum.splits)
  from f obtain ss segs where c: "collect D ss = Inr segs"
    and fx: "fixed = sweep D 0 (sort_key (\<lambda>x. (start_ms x, end_ms x)) segs)"
    by (auto simp: swept_def Let_def split: pyval.splits list.splits sum.splits if_splits)
  let ?sorted = "sort_key (\<lambda>x. (start_ms x, end_ms x)) segs"
  from collect_bounds [OF c] have b: "\<forall>s\<in>set ?sorted. 0 \<le> start_ms s \<and> end_ms s \<le> D"
    by simp
  have s: "sorted (map start_ms fixed)"
    unfolding fx using sort_key_starts b by (intro sweep_sorted) auto
  have n: "no_overlap 0 fixed" unfolding fx by (rule sweep_no_overlap)
  have e: "\<forall>c\<in>set fixed. end_ms c \<le> D \<and> (start_ms c < D \<longrightarrow> start_ms c < end_ms c)"
    unfolding fx using sweep_end_le [of ?sorted D 0] sweep_positive [of D 0 ?sorted] b by blast
  from s n extend_last_cues [OF e] show ?thesis
    by (simp add: o extend_last_starts extend_last_no_overlap)
qed

text \<open>
  Claim C1 asks, besides the three properties above, that every cue returned by
  \<open>funasr_to_segments\<close> has \<open>end_ms > start_ms\<close>. For a sentence that starts where the
  audio ends (start 1000, end 1200, duration 1000 ms) the cue returned has
  \<open>end_ms = start_ms = 1000\<close>: both repairs of an end that is not after its start cap the
  end at the duration and leave the start alone.
\<close>

theorem funasr_cue_not_positive:
  "funasr_to_segments
     (PList [PDict [(ascii ''sentence_info'',
        PList [PDict [(ascii ''text'', PStr (ascii ''a'')),
                      (ascii ''start'', PInt 1000), (ascii ''end'', PInt 1200)]])]])
     1000 = Inr [\<lparr>start_ms = 1000, end_ms = 1000, text = ascii ''a''\<rparr>]"
  by (simp add: eval_builder eval_text)

section \<open>Properties of the correction merger\<close>

lemma getitem_index [simp]: "py_getitem (correction_dict c) (ascii ''index'') = Inr (PStr (c_index c))"
  by (simp add: correction_dict_def ascii_def)

lemma getitem_corrected [simp]:
  "py_getitem (correction_dict c) (ascii ''corrected'') = Inr (PStr (c_corrected c))"
  by (simp add: correction_dict_def ascii_def)

lemma correction_map_typed:
  "\<exists>m'. correction_map (map correction_dict cs) m = Inr m' \<and>
     (\<forall>idx. m' (PStr idx) =
        (case last_match idx cs of None \<Rightarrow> m (PStr idx) | Some c \<Rightarrow> Some (correction_dict c)))"
proof (induction cs arbitrary: m)
  case Nil
  then show ?case by simp
next
  case (Cons c cs)
  from Cons.IH [of "m(PStr (c_index c) \<mapsto> correction_dict c)"]
  obtain m' where m': "correction_map (map correction_dict cs)
                         (m(PStr (c_index c) \<mapsto> correction_dict c)) = Inr m'"
    and look: "\<And>idx. m' (PStr idx) =
        (case last_match idx cs of
           None \<Rightarrow> (m(PStr (c_index c) \<mapsto> correction_dict c)) (PStr idx)
         | Some d \<Rightarrow> Some (correction_dict d))"
    by blast
  have "correction_map (map correction_dict (c # cs)) m = Inr m'"
    using m' by simp
  moreover have "m' (PStr idx) =
        (case last_match idx (c # cs) of None \<Rightarrow> m (PStr idx) | Some d \<Rightarrow> Some (correction_dict d))"
    for idx
    using look [of idx] by (auto split: option.splits)
  ultimately show ?case by blast
qed

lemma merge_cues_typed:
  assumes "\<And>idx. m (PStr idx) =
             (case last_match idx cs of None \<Rightarrow> None | Some c \<Rightarrow> Some (correction_dict c))"
  shows "merge_cues m subs = Inr (map (merged cs) subs)"
proof (induction subs)
  case Nil
  then show ?case by simp
next
  case (Cons s subs)
  obtain idx timestamp orig old where s: "s = (idx, timestamp, orig, old)"
    by (cases s) auto
  show ?case
    using Cons.IH assms [of idx] by (simp add: s merged_def split: option.splits)
qed

lemma apply_corrections_typed:
  "apply_corrections subs (PList (map correction_dict cs)) = Inr (map (merged cs) subs)"
proof -
  obtain m where m: "correction_map (map correction_dict cs) Map.empty = Inr m"
    and look: "\<And>idx. m (PStr idx) =
        (case last_match idx cs of None \<Rightarrow> Map.empty (PStr idx) | Some c \<Rightarrow> Some (correction_dict c))"
    using correction_map_typed [of cs Map.empty] by blast
  have "merge_cues m subs = Inr (map (merged cs) subs)"
    by (rule merge_cues_typed) (simp add: look)
  with m show ?thesis by (simp add: apply_corrections_def)
qed

lemma merge_cues_frame:
  "merge_cues m subs = Inr out \<Longrightarrow> map identity_of out = map identity_of subs"
proof (induction subs arbitrary: out)
  case Nil
  then show ?case by simp
next
  case (Cons s subs)
  obtain idx timestamp orig old where s: "s = (idx, timestamp, orig, old)"
    by (cases s) auto
  from Cons.prems show ?case
    by (auto simp: s identity_of_def split: option.splits sum.splits dest: Cons.IH)
qed

text \<open>A record whose index is the number 1 does not match the cue with the index string
  \<open>1\<close>: keys are compared as they are.\<close>

lemma apply_corrections_no_coercion:
  "apply_corrections [(ascii ''1'', ts, ascii ''orig'', PStr (ascii ''orig''))]
     (PList [PDict [(ascii ''index'', PInt 1), (ascii ''corrected'', PStr (ascii ''fixed''))]])
   = Inr [(ascii ''1'', ts, ascii ''orig'', PStr (ascii ''orig''))]"
  by (simp add: apply_corrections_def)

text \<open>
  Claim C3. For every parsed cue list and every list of correction records,
  \<open>apply_corrections\<close> returns one cue per input cue, in the input order: a cue whose index
  string equals the index of a record gets that record's corrected text (the last such
  record, if several), every other cue gets its original text, and records whose index
  matches no cue change nothing and raise nothing.
\<close>

theorem apply_corrections_merge:
  "apply_corrections subs (PList (map correction_dict cs)) = Inr (map (merged cs) subs) \<and>
   length (map (merged cs) subs) = length subs \<and>
   merged cs (idx, timestamp, orig, old) =
     (idx, timestamp, orig,
      case last_match idx cs of None \<Rightarrow> PStr orig | Some c \<Rightarrow> PStr (c_corrected c)) \<and>
   (last_match idx cs = None \<longleftrightarrow> idx \<notin> c_index ` set cs) \<and>
   (\<forall>c. last_match idx cs = Some c \<longrightarrow> c \<in> set cs \<and> c_index c = idx)"
proof -
  have a: "last_match idx cs = None \<longleftrightarrow> idx \<notin> c_index ` set cs"
    by (induction cs) (auto split: option.splits)
  have b: "\<forall>c. last_match idx cs = Some c \<longrightarrow> c \<in> set cs \<and> c_index c = idx"
    by (induction cs) (auto split: option.splits if_splits)
  show ?thesis using a b by (simp add: apply_corrections_typed merged_def)
qed

theorem apply_corrections_merge_witness:
  "apply_corrections
     [(ascii ''1'', ascii ''00:00:00,000 --> 00:00:01,000'', ascii ''orig'', PStr (ascii ''orig'')),
      (ascii ''2'', ascii ''00:00:01,000 --> 00:00:02,000'', ascii ''next'', PStr (ascii ''next''))]
     (PList (map correction_dict
        [\<lparr>c_index = ascii ''1'', c_original = ascii ''orig'', c_corrected = ascii ''fixed'',
          c_reason = ascii ''typo''\<rparr>,
         \<lparr>c_index = ascii ''01'', c_original = ascii ''x'', c_corrected = ascii ''y'',
          c_reason = ascii ''none''\<rparr>]))
   = Inr
     [(ascii ''1'', ascii ''00:00:00,000 --> 00:00:01,000'', ascii ''orig'', PStr (ascii ''fixed'')),
      (ascii ''2'', ascii ''00:00:01,000 --> 00:00:02,000'', ascii ''next'', PStr (ascii ''next''))]"
  using apply_corrections_merge
    [of "[(ascii ''1'', ascii ''00:00:00,000 --> 00:00:01,000'', ascii ''orig'', PStr (ascii ''orig'')),
          (ascii ''2'', ascii ''00:00:01,000 --> 00:00:02,000'', ascii ''next'', PStr (ascii ''next''))]"
        "[\<lparr>c_index = ascii ''1'', c_original = ascii ''orig'', c_corrected = ascii ''fixed'',
            c_reason = ascii ''typo''\<rparr>,
          \<lparr>c_index = ascii ''01'', c_original = ascii ''x'', c_corrected = ascii ''y'',
            c_reason = ascii ''none''\<rparr>]"]
  by (simp add: merged_def ascii_def)

text \<open>
  Claim C10. Whatever the correction list is, when \<open>apply_corrections\<close> returns, its output
  has the cues of the input with index string, timestamp-range string and original text
  unchanged, one for one and in order: only the corrected field can differ.
\<close>

theorem apply_corrections_frame:
  assumes "apply_corrections subs corrections = Inr out"
  shows "map identity_of out = map identity_of subs"
  using assms
  by (auto simp: apply_corrections_def split: sum.splits dest: merge_cues_frame)

theorem apply_corrections_frame_witness:
  "map identity_of
     [(ascii ''1'', ascii ''00:00:00,000 --> 00:00:01,000'', ascii ''orig'', PStr (ascii ''fixed''))]
   = map identity_of
     [(ascii ''1'', ascii ''00:00:00,000 --> 00:00:01,000'', ascii ''orig'', PStr (ascii ''orig''))]"
proof -
  have "apply_corrections
          [(ascii ''1'', ascii ''00:00:00,000 --> 00:00:01,000'', ascii ''orig'', PStr (ascii ''orig''))]
          (PList [PDict [(ascii ''index'', PStr (ascii ''1'')),
                         (ascii ''corrected'', PStr (ascii ''fixed''))]])
        = Inr [(ascii ''1'', ascii ''00:00:00,000 --> 00:00:01,000'', ascii ''orig'',
                PStr (ascii ''fixed''))]"
    by (simp add: apply_corrections_def ascii_def)
  then show ?thesis by (rule apply_corrections_frame)
qed

section \<open>Properties of the codec\<close>

lemma zero_pad_unfold:
  "zero_pad w ds = (if length ds < w then 48 # zero_pad (w - 1) ds else ds)"
proof (cases "length ds < w")
  case True
  then have "w - length ds = Suc (w - 1 - length ds)" by simp
  then show ?thesis using True by (simp add: zero_pad_def)
next
  case False
  then show ?thesis by (simp add: zero_pad_def)
qed

lemmas eval_time = srt_time_def fmt_d_def zero_pad_unfold digits.simps

lemmas eval_codec = write_srt_def parse_srt_def file_write_def file_read_def parse_content_def
  time_range_def eval_time ascii_def strip_def lstrip_def rstrip_def isspace_def Let_def

subsection \<open>Strings\<close>

lemma strip_Nil [simp]: "strip [] = []"
  by (simp add: strip_def lstrip_def)

lemma strip_id: "t \<noteq> [] \<Longrightarrow> \<not> isspace (hd t) \<Longrightarrow> \<not> isspace (last t) \<Longrightarrow> strip t = t"
proof -
  assume ne: "t \<noteq> []" and h: "\<not> isspace (hd t)" and l: "\<not> isspace (last t)"
  from ne h have "lstrip t = t" by (cases t) (simp_all add: lstrip_def)
  moreover from l have "rstrip t = t" by (simp add: rstrip_id)
  ultimately show ?thesis by (simp add: strip_def)
qed

lemma strip_trailing_newline:
  assumes "t \<noteq> []" and "\<not> isspace (hd t)" and "\<not> isspace (last t)"
  shows "strip (t @ [10]) = t"
proof -
  from assms(1,2) have "lstrip (t @ [10]) = t @ [10]" by (cases t) (simp_all add: lstrip_def)
  moreover have "isspace 10" by (simp add: isspace_def)
  then have "rstrip (t @ [10]) = rstrip t" by (simp add: rstrip_def)
  moreover from assms(3) have "rstrip t = t" by (simp add: rstrip_id)
  ultimately show ?thesis by (simp add: strip_def)
qed

lemma split_on_not_Nil [simp]: "split_on c t \<noteq> []"
  by (induction t) (auto split: list.splits)

lemma join_Cons_nonempty: "ys \<noteq> [] \<Longrightarrow> join sep (x # ys) = x @ sep @ join sep ys"
  by (cases ys) simp_all

lemma join_split_on: "join [c] (split_on c t) = t"
proof (induction t)
  case Nil
  show ?case by simp
next
  case (Cons x t)
  show ?case
  proof (cases "x = c")
    case True
    with Cons show ?thesis by (simp add: join_Cons_nonempty)
  next
    case False
    obtain p ps where s: "split_on c t = p # ps" by (cases "split_on c t") auto
    have "join [c] ((x # p) # ps) = x # join [c] (p # ps)" by (cases ps) simp_all
    with False s Cons show ?thesis by simp
  qed
qed

lemma split_on_prefix: "c \<notin> set a \<Longrightarrow> split_on c (a @ c # b) = a # split_on c b"
  by (induction a) auto

lemma set_join: "set (join sep xs) \<subseteq> set sep \<union> \<Union> (set ` set xs)"
  by (induction sep xs rule: join.induct) auto

lemma hd_join: "b \<noteq> [] \<Longrightarrow> hd (join sep (b # bs)) = hd b"
  by (cases bs) simp_all

lemma join_last_not_Nil: "bs \<noteq> [] \<Longrightarrow> last bs \<noteq> [] \<Longrightarrow> join sep bs \<noteq> []"
  by (induction sep bs rule: join.induct) (auto split: if_splits)

lemma last_join: "bs \<noteq> [] \<Longrightarrow> last bs \<noteq> [] \<Longrightarrow> last (join sep bs) = last (last bs)"
proof (induction sep bs rule: join.induct)
  case (1 sep)
  then show ?case by simp
next
  case (2 sep x)
  then show ?case by simp
next
  case (3 sep x y ys)
  from "3.prems" have l: "last (y # ys) \<noteq> []" by simp
  then have "join sep (y # ys) \<noteq> []" by (intro join_last_not_Nil) simp_all
  then have "last (join sep (x # y # ys)) = last (join sep (y # ys))" by simp
  also have "\<dots> = last (last (y # ys))" using l by (intro "3.IH") simp_all
  finally show ?case by simp
qed

lemma join_not_Nil: "b \<noteq> [] \<Longrightarrow> join sep (b # bs) \<noteq> []"
  by (cases bs) simp_all

lemma universal_newlines_id: "13 \<notin> set s \<Longrightarrow> universal_newlines s = s"
  by (induction s rule: universal_newlines.induct) auto

subsection \<open>Blank lines\<close>

lemma has_blank_line_append:
  "has_blank_line (a @ b) \<longleftrightarrow>
     has_blank_line a \<or> has_blank_line b \<or> (a \<noteq> [] \<and> b \<noteq> [] \<and> last a = 10 \<and> hd b = 10)"
proof (induction a rule: has_blank_line.induct)
  case (3 x y xs)
  then show ?case by auto
next
  case 1
  then show ?case by simp
next
  case (2 x)
  then show ?case by (cases b) auto
qed

lemma has_blank_line_Cons:
  "has_blank_line (x # t) \<longleftrightarrow> (x = 10 \<and> t \<noteq> [] \<and> hd t = 10) \<or> has_blank_line t"
  by (cases t) auto

lemma no_newline_no_blank_line: "10 \<notin> set a \<Longrightarrow> \<not> has_blank_line a"
  by (induction a rule: has_blank_line.induct) auto

lemma re_split_blank_not_Nil [simp]: "re_split_blank s \<noteq> []"
  by (induction s rule: re_split_blank.induct) (auto split: list.splits)

lemma re_split_blank_whole: "\<not> has_blank_line g \<Longrightarrow> re_split_blank g = [g]"
proof (induction g rule: has_blank_line.induct)
  case (3 x y xs)
  then show ?case by auto
next
  case 1
  show ?case by simp
next
  case (2 x)
  show ?case by simp
qed

lemma re_split_blank_cut:
  assumes "\<not> has_blank_line g" and "g \<noteq> []" and "last g \<noteq> 10" and "r = [] \<or> hd r \<noteq> 10"
  shows "re_split_blank (g @ 10 # 10 # r) = g # re_split_blank r"
  using assms
proof (induction g rule: has_blank_line.induct)
  case (3 x y xs)
  then have "re_split_blank ((y # xs) @ 10 # 10 # r) = (y # xs) # re_split_blank r" by simp
  moreover from "3.prems" have "\<not> (x = 10 \<and> y = 10)" by simp
  ultimately show ?case by auto
next
  case 1
  then show ?case by simp
next
  case (2 x)
  from "2.prems"(4) have "dropWhile (\<lambda>c. c = 10) r = r" by (cases r) auto
  with "2.prems" show ?case by simp
qed

subsection \<open>The lines of a written block\<close>

lemma isdigit_plain: "isdigit c \<Longrightarrow> \<not> isspace c \<and> c \<noteq> 10 \<and> c \<noteq> 13"
  by (auto simp: isdigit_def isspace_def)

lemma digits_chars: "digits i \<noteq> [] \<and> (\<forall>c\<in>set (digits i). isdigit c)"
  using digits_isdigit [of i] length_digits_pos [of i] by (simp add: list_all_iff)

lemma srt_time_chars:
  "srt_time ms \<noteq> [] \<and> isdigit (hd (srt_time ms)) \<and> isdigit (last (srt_time ms)) \<and>
   (\<forall>c\<in>set (srt_time ms). isdigit c \<or> c = 58 \<or> c = 44)"
proof -
  define n where "n = (if ms < 0 then 0 else ms)"
  have n: "0 \<le> n" and eq: "srt_time ms = srt_time n"
    by (simp_all add: n_def srt_time_negative)
  from srt_time_fields [OF n] obtain h m s f where
    t: "srt_time n = h @ [58] @ m @ [58] @ s @ [44] @ f" and
    d: "list_all isdigit h" "list_all isdigit m" "list_all isdigit s" "list_all isdigit f" and
    l: "2 \<le> length h" "length f = 3"
    by blast
  from l have hne: "h \<noteq> []" and fne: "f \<noteq> []" by auto
  from hne d(1) have "isdigit (hd h)" by (cases h) simp_all
  moreover from fne d(4) have "isdigit (last f)" by (simp add: list_all_iff)
  moreover have "\<forall>c\<in>set (srt_time n). isdigit c \<or> c = 58 \<or> c = 44"
    using d by (auto simp: t list_all_iff)
  ultimately show ?thesis using hne fne by (simp add: eq t)
qed

lemma time_range_chars:
  "time_range seg \<noteq> [] \<and> \<not> isspace (hd (time_range seg)) \<and> \<not> isspace (last (time_range seg))
   \<and> 10 \<notin> set (time_range seg) \<and> 13 \<notin> set (time_range seg)"
proof -
  note a = srt_time_chars [of "start_ms seg"] and b = srt_time_chars [of "end_ms seg"]
  have arrow: "ascii '' --> '' = [32, 45, 45, 62, 32]" by (simp add: ascii_def)
  have "hd (time_range seg) = hd (srt_time (start_ms seg))"
    using a by (simp add: time_range_def)
  moreover have "last (time_range seg) = last (srt_time (end_ms seg))"
    using b by (simp add: time_range_def)
  moreover have "\<forall>c\<in>set (time_range seg). c \<noteq> 10 \<and> c \<noteq> 13"
    using a b by (auto simp: time_range_def arrow dest: isdigit_plain)
  ultimately show ?thesis using a b by (auto simp: time_range_def dest: isdigit_plain)
qed

lemma isspace_newline: "isspace 10"
  by (simp add: isspace_def)

lemma block_text_good:
  assumes "cue_text_ok (text seg)"
  shows "block_text i seg \<noteq> [] \<and> \<not> isspace (hd (block_text i seg)) \<and>
         \<not> isspace (last (block_text i seg)) \<and> \<not> has_blank_line (block_text i seg)"
proof -
  note d = digits_chars [of i] and t = time_range_chars [of seg]
  from assms have x: "text seg \<noteq> []" "\<not> isspace (hd (text seg))" "\<not> isspace (last (text seg))"
      "\<not> has_blank_line (text seg)"
    by (simp_all add: cue_text_ok_def)
  have "hd (block_text i seg) = hd (digits i)" using d by (simp add: block_text_def)
  then have h: "\<not> isspace (hd (block_text i seg))" using d isdigit_plain by (metis hd_in_set)
  have l: "last (block_text i seg) = last (text seg)" using x(1) by (simp add: block_text_def)
  have nd: "10 \<notin> set (digits i)" using d isdigit_plain by blast
  have hx: "hd (text seg) \<noteq> 10" using x(2) isspace_newline by metis
  have ht: "hd (time_range seg) \<noteq> 10" using t isspace_newline by metis
  have lt: "last (time_range seg) \<noteq> 10" using t isspace_newline by metis
  have "\<not> has_blank_line (10 # text seg)" using x hx by (simp add: has_blank_line_Cons)
  then have "\<not> has_blank_line (time_range seg @ 10 # text seg)"
    using t lt by (simp add: has_blank_line_append no_newline_no_blank_line)
  then have "\<not> has_blank_line (10 # time_range seg @ 10 # text seg)"
    using t ht by (simp add: has_blank_line_Cons)
  moreover have "last (digits i) \<noteq> 10" using digits_chars [of i] nd by (metis last_in_set)
  ultimately have "\<not> has_blank_line (digits i @ [10] @ time_range seg @ [10] @ text seg)"
    using nd by (simp add: has_blank_line_append no_newline_no_blank_line)
  then show ?thesis using h l x by (simp add: block_text_def)
qed

lemma parse_one_block:
  assumes "cue_text_ok (text seg)"
  shows "parse_blocks (block_text i seg # bs) =
           (digits i, time_range seg, text seg, PStr (text seg)) # parse_blocks bs"
proof -
  note d = digits_chars [of i] and t = time_range_chars [of seg] and g = block_text_good [OF assms]
  from assms have x: "text seg \<noteq> []" "\<not> isspace (hd (text seg))" "\<not> isspace (last (text seg))"
    by (simp_all add: cue_text_ok_def)
  have nd: "10 \<notin> set (digits i)" using d isdigit_plain by blast
  have s0: "strip (block_text i seg) = block_text i seg" using g by (simp add: strip_id)
  have "split_on 10 (block_text i seg) =
          digits i # split_on 10 (time_range seg @ 10 # text seg)"
    using nd by (simp add: block_text_def split_on_prefix)
  also have "split_on 10 (time_range seg @ 10 # text seg) = time_range seg # split_on 10 (text seg)"
    using t by (simp add: split_on_prefix)
  finally have sp: "split_on 10 (block_text i seg) =
                      digits i # time_range seg # split_on 10 (text seg)" .
  have len: "3 \<le> length (digits i # time_range seg # split_on 10 (text seg))"
    using split_on_not_Nil [of 10 "text seg"] by (cases "split_on 10 (text seg)") simp_all
  have hdd: "\<not> isspace (hd (digits i))" and lad: "\<not> isspace (last (digits i))"
    using d isdigit_plain by (metis hd_in_set, metis last_in_set)
  have s1: "strip (digits i) = digits i" using d hdd lad by (simp add: strip_id)
  have s2: "strip (time_range seg) = time_range seg" using t by (simp add: strip_id)
  have s3: "strip (join [10] (split_on 10 (text seg))) = text seg"
    using x by (simp add: join_split_on strip_id)
  show ?thesis using len by (simp add: s0 sp s1 s2 s3 Let_def)
qed

lemma parse_blocks_of:
  "\<forall>seg\<in>set segs. cue_text_ok (text seg) \<Longrightarrow>
   parse_blocks (blocks_of i segs) = expected_entries i segs"
  by (induction segs arbitrary: i) (simp_all add: parse_one_block del: parse_blocks.simps(2))

lemma blocks_of_Nil_iff [simp]: "blocks_of i segs = [] \<longleftrightarrow> segs = []"
  by (cases segs) simp_all

lemma last_blocks_of:
  "segs \<noteq> [] \<Longrightarrow> \<exists>j. last (blocks_of i segs) = block_text j (last segs)"
  by (induction segs arbitrary: i) auto

lemma joined_blocks_ends:
  assumes "\<forall>seg\<in>set segs. cue_text_ok (text seg)" and "segs \<noteq> []"
  shows "join [10, 10] (blocks_of i segs) \<noteq> [] \<and>
         \<not> isspace (hd (join [10, 10] (blocks_of i segs))) \<and>
         \<not> isspace (last (join [10, 10] (blocks_of i segs)))"
proof -
  from assms(2) obtain seg rest where segs: "segs = seg # rest" by (cases segs) auto
  from assms(1) segs have g: "block_text i seg \<noteq> []" "\<not> isspace (hd (block_text i seg))"
    using block_text_good [of seg i] by simp_all
  from last_blocks_of [OF assms(2), of i] obtain j
    where j: "last (blocks_of i segs) = block_text j (last segs)" by blast
  have "cue_text_ok (text (last segs))" using assms by simp
  from block_text_good [OF this, of j] j
  have l: "last (blocks_of i segs) \<noteq> []" "\<not> isspace (last (last (blocks_of i segs)))"
    by simp_all
  have ne: "blocks_of i segs \<noteq> []" using assms(2) by simp
  show ?thesis
    using g l last_join [OF ne l(1), of "[10, 10]"]
    by (simp add: segs hd_join join_not_Nil)
qed

lemma re_split_blocks_of:
  "\<forall>seg\<in>set segs. cue_text_ok (text seg) \<Longrightarrow> segs \<noteq> [] \<Longrightarrow>
   re_split_blank (join [10, 10] (blocks_of i segs)) = blocks_of i segs"
proof (induction segs arbitrary: i)
  case Nil
  then show ?case by simp
next
  case (Cons seg rest)
  from Cons.prems(1) have g: "block_text i seg \<noteq> []" "\<not> isspace (last (block_text i seg))"
      "\<not> has_blank_line (block_text i seg)"
    using block_text_good [of seg i] by simp_all
  show ?case
  proof (cases "rest = []")
    case True
    with g show ?thesis by (simp add: re_split_blank_whole)
  next
    case False
    let ?r = "join [10, 10] (blocks_of (Suc i) rest)"
    from Cons.prems(1) False have e: "?r \<noteq> []" "\<not> isspace (hd ?r)"
      using joined_blocks_ends [of rest "Suc i"] by simp_all
    have "hd ?r \<noteq> 10" using e(2) isspace_newline by metis
    moreover have "last (block_text i seg) \<noteq> 10" using g(2) isspace_newline by metis
    ultimately have "re_split_blank (block_text i seg @ 10 # 10 # ?r) =
             block_text i seg # re_split_blank ?r"
      using g by (intro re_split_blank_cut) simp_all
    moreover have "re_split_blank ?r = blocks_of (Suc i) rest"
      using Cons.IH [of "Suc i"] Cons.prems(1) False by simp
    ultimately show ?thesis using False by (simp add: join_Cons_nonempty)
  qed
qed

lemma srt_lines_Nil_iff [simp]: "srt_lines i segs = [] \<longleftrightarrow> segs = []"
  by (cases segs) simp_all

lemma blob_shape:
  "segs \<noteq> [] \<Longrightarrow> join [10] (srt_lines i segs) = join [10, 10] (blocks_of i segs) @ [10]"
proof (induction segs arbitrary: i)
  case Nil
  then show ?case by simp
next
  case (Cons seg rest)
  show ?case
  proof (cases "rest = []")
    case True
    then show ?thesis by (simp add: block_text_def)
  next
    case False
    then have "join [10] (srt_lines (Suc i) rest) =
                 join [10, 10] (blocks_of (Suc i) rest) @ [10]"
      by (rule Cons.IH)
    moreover have "join [10] ([] # srt_lines (Suc i) rest) = 10 # join [10] (srt_lines (Suc i) rest)"
      using False by (simp add: join_Cons_nonempty)
    ultimately show ?thesis using False by (simp add: block_text_def join_Cons_nonempty)
  qed
qed

lemma srt_lines_no_cr:
  "\<forall>seg\<in>set segs. 13 \<notin> set (text seg) \<Longrightarrow> \<forall>l\<in>set (srt_lines i segs). 13 \<notin> set l"
proof (induction segs arbitrary: i)
  case Nil
  then show ?case by simp
next
  case (Cons seg rest)
  have "13 \<notin> set (digits i)" using digits_chars [of i] isdigit_plain by blast
  moreover have "13 \<notin> set (time_range seg)" using time_range_chars [of seg] by simp
  ultimately show ?case using Cons by simp
qed

lemma parse_content_blob:
  assumes "\<forall>seg\<in>set segs. cue_text_ok (text seg)"
  shows "parse_content (join [10] (srt_lines 1 segs)) = expected_entries 1 segs"
proof (cases "segs = []")
  case True
  then show ?thesis by (simp add: parse_content_def)
next
  case False
  note e = joined_blocks_ends [OF assms False, of 1]
  have "strip (join [10] (srt_lines 1 segs)) = join [10, 10] (blocks_of 1 segs)"
    using e by (simp add: blob_shape [OF False] strip_trailing_newline)
  then show ?thesis
    using assms False by (simp add: parse_content_def re_split_blocks_of parse_blocks_of)
qed

lemma roundtrip:
  assumes "\<forall>seg\<in>set segs. cue_text_ok (text seg) \<and> 13 \<notin> set (text seg)"
  shows "parse_srt path (write_srt segs path fs) = Inr (expected_entries 1 segs)"
proof -
  have "\<forall>l\<in>set (srt_lines 1 segs). 13 \<notin> set l" using assms by (intro srt_lines_no_cr) simp
  then have "13 \<notin> set (join [10] (srt_lines 1 segs))"
    using set_join [of "[10]" "srt_lines 1 segs"] by auto
  then have "universal_newlines (join [10] (srt_lines 1 segs)) = join [10] (srt_lines 1 segs)"
    by (rule universal_newlines_id)
  moreover have "parse_content (join [10] (srt_lines 1 segs)) = expected_entries 1 segs"
    using assms by (intro parse_content_blob) simp
  ultimately show ?thesis
    by (simp add: parse_srt_def write_srt_def file_read_def file_write_def)
qed

lemma length_expected_entries: "length (expected_entries i segs) = length segs"
  by (induction segs arbitrary: i) simp_all

lemma srt_lines_enumerate:
  "srt_lines i segs =
     concat (map (\<lambda>(j, seg). [digits j, time_range seg, text seg, []]) (enumerate i segs))"
  by (induction segs arbitrary: i) simp_all

lemma time_range_sentinel:
  "start_ms seg = - 1 \<Longrightarrow> time_range seg = ascii ''00:00:00,000 --> '' @ srt_time (end_ms seg)"
  by (simp add: time_range_def eval_time ascii_def)

text \<open>
  Claim C4, as the code has it. A cue list whose texts are non-empty, have no white space
  at either end, no blank line and no carriage return is read back from the written file
  as one entry per cue, in order, with the index, the timestamp line and the text that were
  written. The carriage return is excluded because the file is read with universal
  newlines.
\<close>

theorem parse_write_roundtrip:
  assumes "\<forall>seg\<in>set segs. cue_text_ok (text seg) \<and> 13 \<notin> set (text seg)"
  shows "parse_srt path (write_srt segs path fs) = Inr (expected_entries 1 segs) \<and>
         length (expected_entries 1 segs) = length segs"
  using assms by (simp add: roundtrip length_expected_entries)

theorem parse_write_roundtrip_witness:
  "cue_text_ok [20320, 22909] \<and> cue_text_ok [97, 10, 98] \<and>
   parse_srt (ascii ''out.srt'')
     (write_srt [\<lparr>start_ms = 0, end_ms = 500, text = [20320, 22909]\<rparr>,
                 \<lparr>start_ms = 500, end_ms = 900, text = [97, 10, 98]\<rparr>]
        (ascii ''out.srt'') Map.empty)
   = Inr [(ascii ''1'', ascii ''00:00:00,000 --> 00:00:00,500'', [20320, 22909],
           PStr [20320, 22909]),
          (ascii ''2'', ascii ''00:00:00,500 --> 00:00:00,900'', [97, 10, 98],
           PStr [97, 10, 98])]"
proof -
  let ?segs = "[\<lparr>start_ms = 0, end_ms = 500, text = [20320, 22909]\<rparr>,
                \<lparr>start_ms = 500, end_ms = 900, text = [97, 10, 98]\<rparr>]"
  have h: "\<forall>seg\<in>set ?segs. cue_text_ok (text seg) \<and> 13 \<notin> set (text seg)"
    by (simp add: cue_text_ok_def isspace_def)
  have e: "expected_entries 1 ?segs =
        [(ascii ''1'', ascii ''00:00:00,000 --> 00:00:00,500'', [20320, 22909],
           PStr [20320, 22909]),
          (ascii ''2'', ascii ''00:00:00,500 --> 00:00:00,900'', [97, 10, 98],
           PStr [97, 10, 98])]"
    by (simp add: time_range_def eval_time ascii_def)
  have c: "cue_text_ok [20320, 22909] \<and> cue_text_ok [97, 10, 98]"
    by (simp add: cue_text_ok_def isspace_def)
  from parse_write_roundtrip [OF h, of "ascii ''out.srt''" Map.empty] c e show ?thesis
    by simp
qed

text \<open>
  A cue text with a carriage return inside meets the invariants the claim lists, and comes
  back with a line feed in its place.
\<close>

theorem parse_write_cr_counterexample:
  "cue_text_ok [97, 13, 98] \<and>
   parse_srt (ascii ''out.srt'')
     (write_srt [\<lparr>start_ms = 0, end_ms = 500, text = [97, 13, 98]\<rparr>] (ascii ''out.srt'') Map.empty)
   = Inr [(ascii ''1'', ascii ''00:00:00,000 --> 00:00:00,500'', [97, 10, 98], PStr [97, 10, 98])] \<and>
   parse_srt (ascii ''out.srt'')
     (write_srt [\<lparr>start_ms = 0, end_ms = 500, text = [97, 13, 98]\<rparr>] (ascii ''out.srt'') Map.empty)
   \<noteq> Inr (expected_entries 1 [\<lparr>start_ms = 0, end_ms = 500, text = [97, 13, 98]\<rparr>])"
  by (simp add: cue_text_ok_def eval_codec)

text \<open>
  Claim C5, as the code has it. \<open>write_srt\<close> drops nothing: the file holds four lines for
  every input cue, in order and numbered from 1; a cue whose \<open>start_ms\<close> is \<open>-1\<close> is written
  like any other, its start shown as \<open>00:00:00,000\<close>; and for well-formed texts the file
  parses back to as many entries as there were cues.
\<close>

theorem write_srt_keeps_every_cue:
  "write_srt segs out_srt fs out_srt = Some (join [10] (srt_lines 1 segs)) \<and>
   srt_lines 1 segs =
     concat (map (\<lambda>(j, seg). [digits j, time_range seg, text seg, []]) (enumerate 1 segs)) \<and>
   (start_ms seg = - 1 \<longrightarrow>
      time_range seg = ascii ''00:00:00,000 --> '' @ srt_time (end_ms seg)) \<and>
   ((\<forall>s\<in>set segs. cue_text_ok (text s) \<and> 13 \<notin> set (text s)) \<longrightarrow>
      (\<exists>subs. parse_srt out_srt (write_srt segs out_srt fs) = Inr subs \<and>
         length subs = length segs))"
proof -
  have "write_srt segs out_srt fs out_srt = Some (join [10] (srt_lines 1 segs))"
    by (simp add: write_srt_def file_write_def)
  moreover have "(\<forall>s\<in>set segs. cue_text_ok (text s) \<and> 13 \<notin> set (text s)) \<longrightarrow>
      (\<exists>subs. parse_srt out_srt (write_srt segs out_srt fs) = Inr subs \<and>
         length subs = length segs)"
    using roundtrip [of segs out_srt fs] length_expected_entries [of 1 segs] by blast
  ultimately show ?thesis
    using srt_lines_enumerate [of 1 segs] time_range_sentinel [of seg] by blast
qed

theorem write_srt_keeps_every_cue_witness:
  "time_range \<lparr>start_ms = - 1, end_ms = 500, text = ascii ''a''\<rparr>
     = ascii ''00:00:00,000 --> 00:00:00,500'' \<and>
   (\<exists>subs. parse_srt (ascii ''out.srt'')
        (write_srt [\<lparr>start_ms = - 1, end_ms = 500, text = ascii ''a''\<rparr>,
                    \<lparr>start_ms = 600, end_ms = 900, text = ascii ''b''\<rparr>]
           (ascii ''out.srt'') Map.empty) = Inr subs \<and> length subs = 2)"
proof -
  let ?a = "\<lparr>start_ms = - 1, end_ms = 500, text = ascii ''a''\<rparr>"
  let ?segs = "[?a, \<lparr>start_ms = 600, end_ms = 900, text = ascii ''b''\<rparr>]"
  have h: "\<forall>s\<in>set ?segs. cue_text_ok (text s) \<and> 13 \<notin> set (text s)"
    by (simp add: cue_text_ok_def isspace_def ascii_def)
  note w = write_srt_keeps_every_cue [of ?segs "ascii ''out.srt''" Map.empty ?a]
  from w have "time_range ?a = ascii ''00:00:00,000 --> '' @ srt_time 500" by simp
  then have "time_range ?a = ascii ''00:00:00,000 --> 00:00:00,500''"
    by (simp add: eval_time ascii_def)
  moreover from w h have "\<exists>subs. parse_srt (ascii ''out.srt'')
        (write_srt ?segs (ascii ''out.srt'') Map.empty) = Inr subs \<and> length subs = length ?segs"
    by blast
  then have "\<exists>subs. parse_srt (ascii ''out.srt'')
        (write_srt ?segs (ascii ''out.srt'') Map.empty) = Inr subs \<and> length subs = 2"
    by (simp add: numeral_2_eq_2)
  ultimately show ?thesis by blast
qed

text \<open>
  One cue with the start \<open>-1\<close>: the written file has a block for it, numbered 1, and parsing
  the file gives that cue back.
\<close>

theorem write_srt_sentinel_counterexample:
  "write_srt [\<lparr>start_ms = - 1, end_ms = 500, text = ascii ''a''\<rparr>] (ascii ''out.srt'') Map.empty
     (ascii ''out.srt'')
   = Some (ascii ''1'' @ [10] @ ascii ''00:00:00,000 --> 00:00:00,500'' @ [10] @ ascii ''a'' @ [10]) \<and>
   parse_srt (ascii ''out.srt'')
     (write_srt [\<lparr>start_ms = - 1, end_ms = 500, text = ascii ''a''\<rparr>] (ascii ''out.srt'')
        Map.empty)
   = Inr [(ascii ''1'', ascii ''00:00:00,000 --> 00:00:00,500'', ascii ''a'', PStr (ascii ''a''))]"
  by (simp add: eval_codec)

section \<open>Properties of the proofreading flow\<close>

lemma parse_blocks_unchanged: "list_all unchanged (parse_blocks bs)"
  by (induction bs) (simp_all add: Let_def unchanged_def)

lemma merge_cues_empty: "list_all unchanged subs \<Longrightarrow> merge_cues Map.empty subs = Inr subs"
  by (induction subs) (auto simp: unchanged_def)

lemma apply_no_corrections:
  "list_all unchanged subs \<Longrightarrow> apply_corrections subs (PList []) = Inr subs"
  by (simp add: apply_corrections_def merge_cues_empty)

lemma optimized_lines_unchanged:
  "list_all unchanged subs \<Longrightarrow>
   optimized_lines subs =
     Inr (concat (map (\<lambda>(idx, timestamp, orig, new). [idx, timestamp, orig, []]) subs))"
  by (induction subs) (auto simp: unchanged_def bind_err_def)

lemma table_rows_unchanged: "list_all unchanged subs \<Longrightarrow> \<exists>rs. table_rows subs = Inr rs"
  by (induction subs) (auto simp: unchanged_def bind_err_def Let_def)

lemma report_lines_no_corrections:
  assumes "list_all unchanged subs"
  shows "\<exists>rows. report_lines input_srt output_srt subs (PList []) (PStr note) now = Inr rows \<and>
           rows ! 8 = note \<and> rows ! 12 = nothing_to_fix_line"
proof -
  from table_rows_unchanged [OF assms] obtain rs where "table_rows subs = Inr rs" by blast
  then show ?thesis by (simp add: report_lines_def bind_err_def)
qed

text \<open>
  Claim C6, as the code has it. When the reply of the proofreading service is not JSON
  (\<open>json.loads\<close> raises \<open>JSONDecodeError\<close>) and the input file exists, \<open>optimize_srt\<close> returns
  normally: it applies no correction, so every cue keeps its text in the written subtitle
  file, and it writes the report with the failure note as summary and the line for an empty
  correction list.
\<close>

theorem optimize_srt_invalid_json:
  assumes "fs input_srt = Some content"
  shows "\<exists>subs rows.
           parse_srt input_srt fs = Inr subs \<and>
           report_lines input_srt (output_srt_path input_srt output_dir) subs (PList [])
             (PStr parse_failed_note) now = Inr rows \<and>
           rows ! 8 = parse_failed_note \<and> rows ! 12 = nothing_to_fix_line \<and>
           optimize_srt input_srt output_dir None now fs =
             Inr (fs(output_srt_path input_srt output_dir \<mapsto>
                       join [10] (concat (map (\<lambda>(idx, timestamp, orig, new).
                                                 [idx, timestamp, orig, []]) subs)),
                     report_md_path input_srt output_dir \<mapsto> join [10] rows))"
proof -
  define subs where "subs = parse_content (universal_newlines content)"
  have p: "parse_srt input_srt fs = Inr subs"
    using assms by (simp add: parse_srt_def file_read_def subs_def)
  have u: "list_all unchanged subs"
    by (simp add: subs_def parse_content_def parse_blocks_unchanged)
  from report_lines_no_corrections [OF u]
  obtain rows where r: "report_lines input_srt (output_srt_path input_srt output_dir) subs
        (PList []) (PStr parse_failed_note) now = Inr rows"
    and r8: "rows ! 8 = parse_failed_note" and r12: "rows ! 12 = nothing_to_fix_line"
    by blast
  have "optimize_srt input_srt output_dir None now fs =
          Inr (fs(output_srt_path input_srt output_dir \<mapsto>
                    join [10] (concat (map (\<lambda>(idx, timestamp, orig, new).
                                              [idx, timestamp, orig, []]) subs)),
                  report_md_path input_srt output_dir \<mapsto> join [10] rows))"
    using assms p r
    by (simp add: optimize_srt_def bind_err_def apply_no_corrections [OF u]
        write_optimized_srt_def optimized_lines_unchanged [OF u] write_report_def
        file_write_def)
  with p r r8 r12 show ?thesis by blast
qed

lemma one_cue_parse:
  "parse_srt (ascii ''output/a.srt'') one_cue_files =
     Inr [(ascii ''1'', ascii ''00:00:00,000 --> 00:00:01,000'', ascii ''orig'',
           PStr (ascii ''orig''))]"
  by (simp add: one_cue_files_def eval_codec)

lemma one_cue_paths:
  "output_srt_path (ascii ''output/a.srt'') (ascii ''output'') = ascii ''output/a_optimized.srt''"
  "report_md_path (ascii ''output/a.srt'') (ascii ''output'') = ascii ''output/a_report.md''"
  by (simp_all add: output_srt_path_def report_md_path_def path_join_def splitext_root_def
      basename_def ascii_def)

theorem optimize_srt_invalid_json_witness:
  "\<exists>fs'. optimize_srt (ascii ''output/a.srt'') (ascii ''output'') None
            (ascii ''2026-01-01 00:00:00'') one_cue_files = Inr fs' \<and>
         fs' (ascii ''output/a_optimized.srt'') =
           Some (ascii ''1'' @ [10] @ ascii ''00:00:00,000 --> 00:00:01,000'' @ [10] @
                 ascii ''orig'' @ [10]) \<and>
         fs' (ascii ''output/a_report.md'') \<noteq> None"
proof -
  have f: "one_cue_files (ascii ''output/a.srt'') =
             Some (ascii ''1'' @ [10] @ ascii ''00:00:00,000 --> 00:00:01,000'' @ [10] @
                   ascii ''orig'' @ [10])"
    by (simp add: one_cue_files_def)
  from optimize_srt_invalid_json
    [where fs = one_cue_files and input_srt = "ascii ''output/a.srt''"
       and output_dir = "ascii ''output''" and now = "ascii ''2026-01-01 00:00:00''", OF f]
  obtain subs rows where
    p: "parse_srt (ascii ''output/a.srt'') one_cue_files = Inr subs" and
    o: "optimize_srt (ascii ''output/a.srt'') (ascii ''output'') None
          (ascii ''2026-01-01 00:00:00'') one_cue_files =
        Inr (one_cue_files(ascii ''output/a_optimized.srt'' \<mapsto>
               join [10] (concat (map (\<lambda>(idx, timestamp, orig, new).
                                         [idx, timestamp, orig, []]) subs)),
             ascii ''output/a_report.md'' \<mapsto> join [10] rows))"
    unfolding one_cue_paths by blast
  from p have s: "subs = [(ascii ''1'', ascii ''00:00:00,000 --> 00:00:01,000'', ascii ''orig'',
           PStr (ascii ''orig''))]"
    by (simp add: one_cue_parse)
  have d: "ascii ''output/a_optimized.srt'' \<noteq> ascii ''output/a_report.md''"
    by (simp add: ascii_def)
  show ?thesis
    by (rule exI, rule conjI, rule o) (simp add: s d)
qed

text \<open>
  Two replies that are JSON but not of the expected shape: an object whose \<open>corrections\<close>
  is \<open>null\<close>, and an array. \<open>optimize_srt\<close> raises on both and writes neither file.
\<close>

theorem optimize_srt_wrong_shape_counterexample:
  "optimize_srt (ascii ''output/a.srt'') (ascii ''output'')
     (Some (PDict [(ascii ''corrections'', PNone), (ascii ''summary'', PStr (ascii ''none''))]))
     (ascii ''2026-01-01 00:00:00'') one_cue_files = Inl TypeError \<and>
   optimize_srt (ascii ''output/a.srt'') (ascii ''output'') (Some (PList []))
     (ascii ''2026-01-01 00:00:00'') one_cue_files = Inl AttributeError"
proof -
  have e: "one_cue_files (ascii ''output/a.srt'') \<noteq> None"
    by (simp add: one_cue_files_def)
  show ?thesis
    by (simp add: optimize_srt_def bind_err_def one_cue_parse e dict_get_def)
qed

end
